theory Spec2Isabelle
  imports Main "HOL-Library.Word"
begin

unbundle bit_operations_syntax

section \<open>Data model of \<^verbatim>\<open>pa2.c\<close>\<close>

text \<open>
  The file \<^verbatim>\<open>pa2.c\<close> implements four operations of a two-level paging simulator:
  \<^verbatim>\<open>alloc_page\<close>, \<^verbatim>\<open>free_page\<close>, \<^verbatim>\<open>handle_page_fault\<close> and \<^verbatim>\<open>switch_process\<close>.
  They work on the globals \<^verbatim>\<open>processes\<close>, \<^verbatim>\<open>current\<close>, \<^verbatim>\<open>ptbr\<close> and \<^verbatim>\<open>mapcounts\<close>.

  Every \<^verbatim>\<open>unsigned int\<close> of the source is a 32-bit word; where the source stores one in
  an \<^verbatim>\<open>int\<close> it is read with \<open>sint\<close>. A call of \<^verbatim>\<open>malloc\<close> returns a block that
  nothing else points at; what the block holds is a parameter of the operation that
  calls it, since the source never initialises a block.
\<close>

type_synonym u32 = "32 word"

text \<open>
  The headers \<^verbatim>\<open>vm.h\<close> and \<^verbatim>\<open>list_head.h\<close> are not among the sources. The constants
  they define are parameters of the model: \<^verbatim>\<open>NR_PTES_PER_PAGE\<close>, \<^verbatim>\<open>RW_READ\<close> and
  \<^verbatim>\<open>RW_WRITE\<close> are the fields of a configuration, and \<^verbatim>\<open>NR_PAGEFRAMES\<close> is the
  number of entries of the array \<^verbatim>\<open>mapcounts\<close> (the length of the list that models it).
\<close>

record vm_config =
  NR_PTES_PER_PAGE :: nat
  RW_READ :: u32
  RW_WRITE :: u32

text \<open>\<^verbatim>\<open>struct pte\<close>, with the fields the source reads and writes.\<close>

record pte =
  valid :: bool
  writable :: bool
  pfn :: u32
  private_tag :: u32

text \<open>
  \<^verbatim>\<open>struct pte_directory\<close> is an array \<^verbatim>\<open>ptes[]\<close> of entries, and
  \<^verbatim>\<open>struct pagetable\<close> an array \<^verbatim>\<open>outer_ptes[]\<close> of pointers to directories. Each
  directory is reached through one slot only (it is allocated for that slot and the
  pointer is never copied), so a slot holds its directory by value: \<open>None\<close> is
  \<^verbatim>\<open>NULL\<close>.
\<close>

type_synonym pte_directory = "pte list"
type_synonym pagetable = "pte_directory option list"

text \<open>
  A \<^verbatim>\<open>struct list_head\<close> pointer is either the address of the global \<^verbatim>\<open>processes\<close>
  or the address of the \<^verbatim>\<open>list\<close> field of the process stored at some address.
\<close>

datatype list_ref = Processes | Entry nat

record list_head =
  next_ref :: list_ref
  prev_ref :: list_ref

record process =
  pid :: u32
  pagetable :: pagetable
  list_node :: list_head

text \<open>
  The state: the process structures by address (\<open>heap\<close>; the address of a process is
  its index), the list head \<^verbatim>\<open>processes\<close>, the pointers \<^verbatim>\<open>current\<close> and \<^verbatim>\<open>ptbr\<close>
  (\<^verbatim>\<open>ptbr\<close> points at the page table of the process whose address it holds), and the
  array \<^verbatim>\<open>mapcounts\<close>.
\<close>

record vm_state =
  heap :: "process list"
  processes :: list_head
  current :: nat
  ptbr :: "nat option"
  mapcounts :: "u32 list"

text \<open>
  What C leaves undefined is a value of the model: a \<^verbatim>\<open>NULL\<close> dereference, an array
  access out of range, a pointer to no process, a division by zero.
\<close>

datatype fault = NullDeref | OutOfBounds | BadPointer | DivByZero

section \<open>Frame search\<close>

text \<open>
  The loop \<^verbatim>\<open>for(i=0; i<NR_PAGEFRAMES; i++) if(mapcounts[i]==0) ...\<close> of
  \<^verbatim>\<open>alloc_page\<close> and \<^verbatim>\<open>handle_page_fault\<close>: the first index from \<open>i\<close> on whose count
  is zero.
\<close>

function find_free_from :: "u32 list \<Rightarrow> nat \<Rightarrow> nat option" where
  "find_free_from mc i =
     (if i < length mc
      then (if mc ! i = 0 then Some i else find_free_from mc (Suc i))
      else None)"
  by pat_completeness auto
termination
  by (relation "measure (\<lambda>(mc, i). length mc - i)") auto

declare find_free_from.simps [simp del]

text \<open>
  Storing \<open>d\<close> in \<^verbatim>\<open>outer_ptes[i]\<close> of the process at address \<open>a\<close>: a directory with
  its entries (\<open>Some\<close>), or \<^verbatim>\<open>NULL\<close>.
\<close>

definition store_pd :: "nat \<Rightarrow> nat \<Rightarrow> pte_directory option \<Rightarrow> process list \<Rightarrow> process list" where
  "store_pd a i d hp = hp[a := (hp ! a)\<lparr>pagetable := (pagetable (hp ! a))[i := d]\<rparr>]"

section \<open>\<^verbatim>\<open>alloc_page\<close>\<close>

text \<open>
  \<open>new_pd\<close> is what \<^verbatim>\<open>malloc\<close> returns for a new directory: the source does not
  initialise the block, so its content is a parameter. \<open>pd\<close> is the directory that
  \<^verbatim>\<open>outer_ptes[pd_index]\<close> points at after lines 71 to 75. The result is the returned
  frame number (\<^verbatim>\<open>-1\<close> as an \<^verbatim>\<open>unsigned int\<close> when no frame is free) and the new
  state; when no frame is free the new directory stays in place.
\<close>

definition alloc_page ::
  "vm_config \<Rightarrow> pte_directory \<Rightarrow> u32 \<Rightarrow> u32 \<Rightarrow> vm_state \<Rightarrow> fault + (u32 \<times> vm_state)" where
  "alloc_page cfg new_pd vpn rw s =
     (if NR_PTES_PER_PAGE cfg = 0 then Inl DivByZero
      else if \<not> current s < length (heap s) then Inl BadPointer
      else
        let pd_index = unat vpn div NR_PTES_PER_PAGE cfg;
            pte_index = unat vpn mod NR_PTES_PER_PAGE cfg;
            pt = pagetable (heap s ! current s)
        in
        if \<not> pd_index < length pt then Inl OutOfBounds
        else
          let pd = (case pt ! pd_index of None \<Rightarrow> new_pd | Some d \<Rightarrow> d) in
          (case find_free_from (mapcounts s) 0 of
             None \<Rightarrow>
               Inr (- 1, s\<lparr>heap := store_pd (current s) pd_index (Some pd) (heap s)\<rparr>)
           | Some i \<Rightarrow>
               if \<not> pte_index < length pd then Inl OutOfBounds
               else
                 Inr (word_of_nat i,
                      s\<lparr>heap := store_pd (current s) pd_index
                                  (Some (pd[pte_index :=
                                     \<lparr>valid = True,
                                      writable = (rw = RW_READ cfg OR RW_WRITE cfg),
                                      pfn = word_of_nat i,
                                      private_tag = rw\<rparr>])) (heap s),
                        mapcounts := (mapcounts s)[i := mapcounts s ! i + 1]\<rparr>)))"

section \<open>\<^verbatim>\<open>free_page\<close>\<close>

text \<open>
  The scan \<^verbatim>\<open>for(i=0; i<NR_PTES_PER_PAGE && !ptes[i].valid; i++);\<close> of lines 132
  to 134: the index at which it stops.
\<close>

function scan_valid :: "nat \<Rightarrow> pte list \<Rightarrow> nat \<Rightarrow> fault + nat" where
  "scan_valid n ps i =
     (if i < n
      then (if \<not> i < length ps then Inl OutOfBounds
            else if \<not> valid (ps ! i) then scan_valid n ps (Suc i)
            else Inr i)
      else Inr i)"
  by pat_completeness auto
termination
  by (relation "measure (\<lambda>(n, ps, i). n - i)") auto

declare scan_valid.simps [simp del]

definition free_page :: "vm_config \<Rightarrow> u32 \<Rightarrow> vm_state \<Rightarrow> fault + vm_state" where
  "free_page cfg vpn s =
     (if NR_PTES_PER_PAGE cfg = 0 then Inl DivByZero
      else if \<not> current s < length (heap s) then Inl BadPointer
      else
        let pd_index = unat vpn div NR_PTES_PER_PAGE cfg;
            pte_index = unat vpn mod NR_PTES_PER_PAGE cfg;
            pt = pagetable (heap s ! current s)
        in
        if \<not> pd_index < length pt then Inl OutOfBounds
        else
          (case pt ! pd_index of
             None \<Rightarrow> Inl NullDeref
           | Some pd \<Rightarrow>
               if \<not> pte_index < length pd then Inl OutOfBounds
               else
                 let f = unat (pfn (pd ! pte_index)) in
                 if \<not> f < length (mapcounts s) then Inl OutOfBounds
                 else
                   let process_cnt = sint (mapcounts s ! f) in
                   if process_cnt = 0 then Inr s
                   else
                     let mc = (mapcounts s)[f := mapcounts s ! f - 1];
                         pd' = pd[pte_index :=
                                  \<lparr>valid = False, writable = False, pfn = 0, private_tag = 0\<rparr>]
                     in
                     (case scan_valid (NR_PTES_PER_PAGE cfg) pd' 0 of
                        Inl e \<Rightarrow> Inl e
                      | Inr i \<Rightarrow>
                          Inr (s\<lparr>heap := store_pd (current s) pd_index
                                           (if i = NR_PTES_PER_PAGE cfg then None else Some pd')
                                           (heap s),
                                 mapcounts := mc\<rparr>))))"

section \<open>\<^verbatim>\<open>handle_page_fault\<close>\<close>

text \<open>
  The access mode \<open>rw\<close> is a parameter the source never reads. \<^verbatim>\<open>pfn\<close> and
  \<^verbatim>\<open>number_of_process\<close> are \<^verbatim>\<open>int\<close> variables, so the frame number and the count are
  read as signed values.
\<close>

definition handle_page_fault :: "vm_config \<Rightarrow> u32 \<Rightarrow> u32 \<Rightarrow> vm_state \<Rightarrow> fault + (bool \<times> vm_state)" where
  "handle_page_fault cfg vpn rw s =
     (if NR_PTES_PER_PAGE cfg = 0 then Inl DivByZero
      else
        let pd_index = unat vpn div NR_PTES_PER_PAGE cfg;
            pte_index = unat vpn mod NR_PTES_PER_PAGE cfg
        in
        (case ptbr s of
           None \<Rightarrow> Inr (False, s)
         | Some a \<Rightarrow>
             if \<not> a < length (heap s) then Inl BadPointer
             else if \<not> pd_index < length (pagetable (heap s ! a)) then Inl OutOfBounds
             else
               (case pagetable (heap s ! a) ! pd_index of
                  None \<Rightarrow> Inr (False, s)
                | Some pd \<Rightarrow>
                    if \<not> pte_index < length pd then Inl OutOfBounds
                    else
                      let e = pd ! pte_index in
                      if \<not> valid e then Inr (False, s)
                      else if private_tag e = RW_READ cfg then Inr (False, s)
                      else
                        let f = sint (pfn e) in
                        if f < 0 \<or> int (length (mapcounts s)) \<le> f then Inl OutOfBounds
                        else
                          let number_of_process = sint (mapcounts s ! nat f) in
                          if number_of_process = 1
                          then Inr (True,
                                    s\<lparr>heap := store_pd a pd_index
                                        (Some (pd[pte_index := e\<lparr>writable := True\<rparr>])) (heap s)\<rparr>)
                          else if 1 < number_of_process
                          then
                            (case find_free_from (mapcounts s) 0 of
                               Some i \<Rightarrow>
                                 Inr (True,
                                      s\<lparr>heap := store_pd a pd_index
                                          (Some (pd[pte_index :=
                                             e\<lparr>writable := True, pfn := word_of_nat i\<rparr>])) (heap s),
                                        mapcounts := (mapcounts s)[i := mapcounts s ! i + 1]\<rparr>)
                             | None \<Rightarrow> Inr (False, s))
                          else Inr (False, s))))"

section \<open>\<^verbatim>\<open>switch_process\<close>\<close>

text \<open>
  Modelled from the spec: \<^verbatim>\<open>list_head.h\<close> is not among the sources. The ready queue is
  the collaborator with ``insertion at tail'' and ``in-order traversal''; the source
  reaches it through \<^verbatim>\<open>list_for_each_entry\<close>, \<^verbatim>\<open>INIT_LIST_HEAD\<close> and \<^verbatim>\<open>list_add_tail\<close>
  and assigns the \<^verbatim>\<open>next\<close> and \<^verbatim>\<open>prev\<close> pointers of \<^verbatim>\<open>processes\<close> itself, so the queue
  is the circular doubly linked list with the head \<^verbatim>\<open>processes\<close> that those names
  stand for.

  \<open>find_entry\<close> is the traversal of lines 250 to 264, from the position \<open>pos\<close> on: it
  ends at the head (\<open>Inr None\<close>: no process has the pid) or at the first process with
  the pid (\<open>Inr (Some a)\<close>). On a list whose \<^verbatim>\<open>next\<close> pointers never lead back to the
  head it does not return, which is the value \<open>None\<close>.
\<close>

partial_function (option) find_entry ::
  "process list \<Rightarrow> u32 \<Rightarrow> list_ref \<Rightarrow> (fault + nat option) option" where
  "find_entry hp p pos =
     (case pos of
        Processes \<Rightarrow> Some (Inr None)
      | Entry a \<Rightarrow>
          if \<not> a < length hp then Some (Inl BadPointer)
          else if pid (hp ! a) = p then Some (Inr (Some a))
          else find_entry hp p (next_ref (list_node (hp ! a))))"

text \<open>
  The inner loop of the fork, lines 286 to 298, from index \<open>j\<close> on, over the parent's
  directory, the child's new directory and \<^verbatim>\<open>mapcounts\<close>.
\<close>

function fork_ptes ::
  "nat \<Rightarrow> nat \<Rightarrow> pte list \<times> pte list \<times> u32 list \<Rightarrow> fault + (pte list \<times> pte list \<times> u32 list)" where
  "fork_ptes n j (old_pd, newpd, mc) =
     (if j < n
      then
        (if \<not> j < length old_pd then Inl OutOfBounds
         else if valid (old_pd ! j)
         then
           (if \<not> j < length newpd then Inl OutOfBounds
            else if \<not> unat (pfn (old_pd ! j)) < length mc then Inl OutOfBounds
            else
              fork_ptes n (Suc j)
                (old_pd[j := (old_pd ! j)\<lparr>writable := False\<rparr>],
                 newpd[j := (newpd ! j)\<lparr>valid := True, writable := False,
                                         pfn := pfn (old_pd ! j),
                                         private_tag := private_tag (old_pd ! j)\<rparr>],
                 mc[unat (pfn (old_pd ! j)) := mc ! unat (pfn (old_pd ! j)) + 1]))
         else fork_ptes n (Suc j) (old_pd, newpd, mc))
      else Inr (old_pd, newpd, mc))"
  by pat_completeness auto
termination
  by (relation "measure (\<lambda>(n, j, _). n - j)") auto

declare fork_ptes.simps [simp del]

text \<open>
  The outer loop, lines 280 to 302, from index \<open>i\<close> on, over the parent's page table,
  the child's and \<^verbatim>\<open>mapcounts\<close>. \<open>new_pds i\<close> is what \<^verbatim>\<open>malloc\<close> returns for the child's
  directory of slot \<open>i\<close>.
\<close>

function fork_dirs ::
  "nat \<Rightarrow> (nat \<Rightarrow> pte_directory) \<Rightarrow> nat \<Rightarrow> pagetable \<times> pagetable \<times> u32 list
     \<Rightarrow> fault + (pagetable \<times> pagetable \<times> u32 list)" where
  "fork_dirs n new_pds i (old_pt, newpt, mc) =
     (if i < n
      then
        (if \<not> i < length old_pt then Inl OutOfBounds
         else
           (case old_pt ! i of
              None \<Rightarrow> fork_dirs n new_pds (Suc i) (old_pt, newpt, mc)
            | Some old_pd \<Rightarrow>
                if \<not> i < length newpt then Inl OutOfBounds
                else
                  (case fork_ptes n 0 (old_pd, new_pds i, mc) of
                     Inl e \<Rightarrow> Inl e
                   | Inr (old_pd', newpd, mc') \<Rightarrow>
                       fork_dirs n new_pds (Suc i)
                         (old_pt[i := Some old_pd'], newpt[i := Some newpd], mc'))))
      else Inr (old_pt, newpt, mc))"
  by pat_completeness auto
termination
  by (relation "measure (\<lambda>(n, _, i, _). n - i)") auto

declare fork_dirs.simps [simp del]

text \<open>
  Modelled from the spec: \<^verbatim>\<open>list_add_tail(&p->list, &processes)\<close> for the process at
  address \<open>a\<close>, the ``insertion at tail'' of the ready queue: the node is linked between
  the head's \<^verbatim>\<open>prev\<close> and the head, in the order \<^verbatim>\<open>next->prev = new; new->next = next;
  new->prev = prev; prev->next = new\<close>.
\<close>

definition list_add_tail :: "nat \<Rightarrow> vm_state \<Rightarrow> fault + vm_state" where
  "list_add_tail a s =
     (if \<not> a < length (heap s) then Inl BadPointer
      else
        let prev = prev_ref (processes s);
            hd1 = (processes s)\<lparr>prev_ref := Entry a\<rparr>;
            hp1 = (heap s)[a := (heap s ! a)\<lparr>list_node :=
                     \<lparr>next_ref = Processes, prev_ref = prev\<rparr>\<rparr>]
        in
        (case prev of
           Processes \<Rightarrow> Inr (s\<lparr>heap := hp1, processes := hd1\<lparr>next_ref := Entry a\<rparr>\<rparr>)
         | Entry b \<Rightarrow>
             if \<not> b < length hp1 then Inl BadPointer
             else
               Inr (s\<lparr>heap := hp1[b := (hp1 ! b)\<lparr>list_node :=
                               (list_node (hp1 ! b))\<lparr>next_ref := Entry a\<rparr>\<rparr>],
                      processes := hd1\<rparr>)))"

text \<open>
  Lines 268 to 309: the fork from \<^verbatim>\<open>current\<close>. The new process gets the address after
  the last one in use; \<open>new_pt\<close> is the content of the page table in the block that
  \<^verbatim>\<open>malloc\<close> returns for it (the source does not initialise it).
\<close>

definition fork_process ::
  "vm_config \<Rightarrow> pagetable \<Rightarrow> (nat \<Rightarrow> pte_directory) \<Rightarrow> u32 \<Rightarrow> vm_state \<Rightarrow> fault + vm_state" where
  "fork_process cfg new_pt new_pds p s =
     (if \<not> current s < length (heap s) then Inl BadPointer
      else
        let a = length (heap s);
            cur = heap s ! current s
        in
        (case fork_dirs (NR_PTES_PER_PAGE cfg) new_pds 0 (pagetable cur, new_pt, mapcounts s) of
           Inl e \<Rightarrow> Inl e
         | Inr (old_pt, newpt, mc) \<Rightarrow>
             list_add_tail a
               (s\<lparr>heap := (heap s)[current s := cur\<lparr>pagetable := old_pt\<rparr>]
                            @ [\<lparr>pid = p, pagetable = newpt,
                                list_node = \<lparr>next_ref = Entry a, prev_ref = Entry a\<rparr>\<rparr>],
                  current := a,
                  ptbr := Some a,
                  mapcounts := mc\<rparr>)))"

text \<open>
  \<^verbatim>\<open>switch_process\<close>: \<open>None\<close> when the traversal does not return. When a process with
  the pid is found, \<^verbatim>\<open>current\<close> and \<^verbatim>\<open>ptbr\<close> move to it and the head takes over its
  \<^verbatim>\<open>next\<close> and \<^verbatim>\<open>prev\<close> pointers (lines 258 to 262).
\<close>

definition switch_process ::
  "vm_config \<Rightarrow> pagetable \<Rightarrow> (nat \<Rightarrow> pte_directory) \<Rightarrow> u32 \<Rightarrow> vm_state
     \<Rightarrow> (fault + vm_state) option" where
  "switch_process cfg new_pt new_pds p s =
     (case find_entry (heap s) p (next_ref (processes s)) of
        None \<Rightarrow> None
      | Some (Inl e) \<Rightarrow> Some (Inl e)
      | Some (Inr (Some a)) \<Rightarrow>
          Some (Inr (s\<lparr>current := a,
                       ptbr := Some a,
                       processes := \<lparr>next_ref = next_ref (list_node (heap s ! a)),
                                     prev_ref = prev_ref (list_node (heap s ! a))\<rparr>\<rparr>))
      | Some (Inr None) \<Rightarrow> Some (fork_process cfg new_pt new_pds p s))"

section \<open>Reading the state\<close>

text \<open>
  The entry of the virtual page \<open>vpn\<close> in the page table of the process at address
  \<open>a\<close>: \<open>None\<close> when the directory slot is absent (or an index leaves its array).
\<close>

definition pte_at :: "vm_config \<Rightarrow> nat \<Rightarrow> u32 \<Rightarrow> vm_state \<Rightarrow> pte option" where
  "pte_at cfg a vpn s =
     (if 0 < NR_PTES_PER_PAGE cfg \<and> a < length (heap s) \<and>
         unat vpn div NR_PTES_PER_PAGE cfg < length (pagetable (heap s ! a))
      then
        (case pagetable (heap s ! a) ! (unat vpn div NR_PTES_PER_PAGE cfg) of
           None \<Rightarrow> None
         | Some pd \<Rightarrow>
             if unat vpn mod NR_PTES_PER_PAGE cfg < length pd
             then Some (pd ! (unat vpn mod NR_PTES_PER_PAGE cfg))
             else None)
      else None)"

text \<open>The heap in which that entry, and nothing else, is replaced by \<open>e\<close>.\<close>

definition put_pte :: "vm_config \<Rightarrow> nat \<Rightarrow> u32 \<Rightarrow> pte \<Rightarrow> process list \<Rightarrow> process list" where
  "put_pte cfg a vpn e hp =
     store_pd a (unat vpn div NR_PTES_PER_PAGE cfg)
       (map_option (\<lambda>pd. pd[unat vpn mod NR_PTES_PER_PAGE cfg := e])
          (pagetable (hp ! a) ! (unat vpn div NR_PTES_PER_PAGE cfg))) hp"

section \<open>Arrays of the declared size, and runs of allocations\<close>

text \<open>
  A page table has \<^verbatim>\<open>NR_PTES_PER_PAGE\<close> slots and each directory it points at has
  \<^verbatim>\<open>NR_PTES_PER_PAGE\<close> entries: the sizes that \<^verbatim>\<open>vm.h\<close> declares, which the source relies
  on in every loop.
\<close>

definition table_ok :: "vm_config \<Rightarrow> pagetable \<Rightarrow> bool" where
  "table_ok cfg pt =
     (length pt = NR_PTES_PER_PAGE cfg \<and>
      list_all (\<lambda>slot. case slot of None \<Rightarrow> True | Some pd \<Rightarrow> length pd = NR_PTES_PER_PAGE cfg) pt)"

text \<open>
  A call of \<^verbatim>\<open>alloc_page\<close> as the driver makes it: the block that \<^verbatim>\<open>malloc\<close> returns if a
  directory is needed, the virtual page number, which the two-level table can hold, and
  the access mode.
\<close>

definition request_ok :: "vm_config \<Rightarrow> pte_directory \<times> u32 \<times> u32 \<Rightarrow> bool" where
  "request_ok cfg r =
     (case r of (new_pd, vpn, rw) \<Rightarrow>
        length new_pd = NR_PTES_PER_PAGE cfg \<and>
        unat vpn < NR_PTES_PER_PAGE cfg * NR_PTES_PER_PAGE cfg)"

text \<open>Successive calls of \<^verbatim>\<open>alloc_page\<close>, with the frame numbers they return.\<close>

fun alloc_pages ::
  "vm_config \<Rightarrow> (pte_directory \<times> u32 \<times> u32) list \<Rightarrow> vm_state \<Rightarrow> fault + (u32 list \<times> vm_state)" where
  "alloc_pages cfg [] s = Inr ([], s)"
| "alloc_pages cfg ((new_pd, vpn, rw) # rs) s =
     (case alloc_page cfg new_pd vpn rw s of
        Inl e \<Rightarrow> Inl e
      | Inr (f, s') \<Rightarrow>
          (case alloc_pages cfg rs s' of
             Inl e \<Rightarrow> Inl e
           | Inr (fs, s'') \<Rightarrow> Inr (f # fs, s'')))"

section \<open>What a fork copies, and the ready queue\<close>

text \<open>
  The number of valid entries of a directory, and of a page table, whose frame field is
  \<open>f\<close>.
\<close>

definition refs_in :: "pte list \<Rightarrow> nat \<Rightarrow> nat" where
  "refs_in es f = length (filter (\<lambda>e. valid e \<and> unat (pfn e) = f) es)"

definition table_refs :: "pagetable \<Rightarrow> nat \<Rightarrow> nat" where
  "table_refs pt f =
     sum_list (map (\<lambda>slot. case slot of None \<Rightarrow> 0 | Some pd \<Rightarrow> refs_in pd f) pt)"

text \<open>
  The number of valid entries, across every process, whose frame field is \<open>f\<close>, and the
  invariant of the reference counts: the count of each frame is that number.
\<close>

definition pte_refs :: "vm_state \<Rightarrow> nat \<Rightarrow> nat" where
  "pte_refs s f = sum_list (map (\<lambda>p. table_refs (pagetable p) f) (heap s))"

definition refcount_consistent :: "vm_state \<Rightarrow> bool" where
  "refcount_consistent s =
     list_all (\<lambda>f. unat (mapcounts s ! f) = pte_refs s f) [0..<length (mapcounts s)]"


text \<open>
  What the fork leaves in the parent's entry \<open>e\<close>, and what it leaves in the child's
  entry, which held \<open>g\<close> when \<^verbatim>\<open>malloc\<close> returned the directory.
\<close>

definition cow_parent :: "pte \<Rightarrow> pte" where
  "cow_parent e = (if valid e then e\<lparr>writable := False\<rparr> else e)"

definition cow_child :: "pte \<Rightarrow> pte \<Rightarrow> pte" where
  "cow_child e g =
     (if valid e
      then \<lparr>valid = True, writable = False, pfn = pfn e, private_tag = private_tag e\<rparr>
      else g)"

text \<open>Every valid entry of the page table names a frame below \<open>m\<close>.\<close>

definition frames_in_range :: "pagetable \<Rightarrow> nat \<Rightarrow> bool" where
  "frames_in_range pt m =
     list_all (\<lambda>slot. case slot of
                  None \<Rightarrow> True
                | Some pd \<Rightarrow> list_all (\<lambda>e. valid e \<longrightarrow> unat (pfn e) < m) pd) pt"


text \<open>
  The in-order traversal of the ready queue: \<open>queue_from hp pos as\<close> when following the
  \<^verbatim>\<open>next\<close> pointers from \<open>pos\<close> visits the processes at the addresses \<open>as\<close> and then
  reaches the head \<^verbatim>\<open>processes\<close>.
\<close>

inductive queue_from :: "process list \<Rightarrow> list_ref \<Rightarrow> nat list \<Rightarrow> bool" for hp where
  at_head: "queue_from hp Processes []"
| at_entry: "a < length hp \<Longrightarrow> queue_from hp (next_ref (list_node (hp ! a))) as \<Longrightarrow>
             queue_from hp (Entry a) (a # as)"

code_pred queue_from .

section \<open>A configuration and states to run the operations on\<close>

text \<open>
  A configuration with 16 entries per table and one bit for each access mode. In the
  runs below a block that \<^verbatim>\<open>malloc\<close> returns is filled with zeros: \<open>zero_pd\<close> is such a
  directory and \<open>zero_pt\<close> such a page table.
\<close>

definition vm_h :: vm_config where
  "vm_h = \<lparr>NR_PTES_PER_PAGE = 16, RW_READ = 1, RW_WRITE = 2\<rparr>"

definition zero_pte :: pte where
  "zero_pte = \<lparr>valid = False, writable = False, pfn = 0, private_tag = 0\<rparr>"

definition zero_pd :: pte_directory where
  "zero_pd = replicate 16 zero_pte"

definition zero_pt :: pagetable where
  "zero_pt = replicate 16 None"

text \<open>
  States are written down by their parts. \<open>frames cs\<close> are 128 counts that start with
  \<open>cs\<close> and are zero after them. \<open>proc p es nx pv\<close> is the process with the pid \<open>p\<close>
  and the list pointers \<open>nx\<close> and \<open>pv\<close> whose page table has no directory (\<open>es = None\<close>)
  or just the first one, which starts with the entries \<open>es\<close> and is zero after them.
  \<open>machine ps nx pv c cs\<close> is the state with the processes \<open>ps\<close>, the list head
  pointing at \<open>nx\<close> and \<open>pv\<close>, the process at address \<open>c\<close> running, and \<open>frames cs\<close>.
\<close>

definition frames :: "u32 list \<Rightarrow> u32 list" where
  "frames cs = cs @ replicate (128 - length cs) 0"

definition proc :: "u32 \<Rightarrow> pte list option \<Rightarrow> list_ref \<Rightarrow> list_ref \<Rightarrow> process" where
  "proc p es nx pv =
     \<lparr>pid = p,
      pagetable = map_option (\<lambda>es. es @ replicate (16 - length es) zero_pte) es # replicate 15 None,
      list_node = \<lparr>next_ref = nx, prev_ref = pv\<rparr>\<rparr>"

definition machine :: "process list \<Rightarrow> list_ref \<Rightarrow> list_ref \<Rightarrow> nat \<Rightarrow> u32 list \<Rightarrow> vm_state" where
  "machine ps nx pv c cs =
     \<lparr>heap = ps, processes = \<lparr>next_ref = nx, prev_ref = pv\<rparr>,
      current = c, ptbr = Some c, mapcounts = frames cs\<rparr>"

text \<open>
  The state before any operation: every frame free, and one process, with pid 0 and an
  empty page table, that is running and is not on the ready queue.
\<close>

definition boot :: vm_state where
  "boot = machine [proc 0 None (Entry 0) (Entry 0)] Processes Processes 0 []"

text \<open>
  An entry as \<^verbatim>\<open>alloc_page\<close> writes it under \<open>vm_h\<close> for the mode \<open>m\<close> and the frame
  \<open>f\<close>, and the same entry with the writable bit off.
\<close>

definition mapped :: "u32 \<Rightarrow> u32 \<Rightarrow> pte" where
  "mapped m f = \<lparr>valid = True, writable = (m = 3), pfn = f, private_tag = m\<rparr>"

definition shared :: "u32 \<Rightarrow> u32 \<Rightarrow> pte" where
  "shared m f = \<lparr>valid = True, writable = False, pfn = f, private_tag = m\<rparr>"

section \<open>Lemmas about the loops\<close>

lemma find_free_from_Some:
  "find_free_from mc i = Some k \<Longrightarrow>
     i \<le> k \<and> k < length mc \<and> mc ! k = 0 \<and> (\<forall>j. i \<le> j \<and> j < k \<longrightarrow> mc ! j \<noteq> 0)"
proof (induction mc i rule: find_free_from.induct)
  case (1 mc i)
  show ?case
  proof (cases "i < length mc \<and> mc ! i \<noteq> 0")
    case True
    with "1.prems" have "find_free_from mc (Suc i) = Some k"
      by (subst (asm) find_free_from.simps) simp
    with "1.IH" True
    have IH: "Suc i \<le> k \<and> k < length mc \<and> mc ! k = 0 \<and>
              (\<forall>j. Suc i \<le> j \<and> j < k \<longrightarrow> mc ! j \<noteq> 0)"
      by simp
    have "\<forall>j. i \<le> j \<and> j < k \<longrightarrow> mc ! j \<noteq> 0"
    proof (intro allI impI)
      fix j assume "i \<le> j \<and> j < k"
      then show "mc ! j \<noteq> 0" using IH True by (cases "j = i") auto
    qed
    with IH show ?thesis by simp
  next
    case False
    with "1.prems" show ?thesis
      by (subst (asm) find_free_from.simps) (auto split: if_splits)
  qed
qed

lemma find_free_from_None:
  "find_free_from mc i = None \<Longrightarrow> i \<le> j \<Longrightarrow> j < length mc \<Longrightarrow> mc ! j \<noteq> 0"
proof (induction mc i rule: find_free_from.induct)
  case (1 mc i)
  from "1.prems" have il: "i < length mc" by simp
  from "1.prems"(1) il have nz: "mc ! i \<noteq> 0" and rec: "find_free_from mc (Suc i) = None"
    by (subst (asm) find_free_from.simps, auto split: if_splits)+
  show ?case
  proof (cases "j = i")
    case True
    with nz show ?thesis by simp
  next
    case False
    with "1.prems" have "Suc i \<le> j" by simp
    with "1.IH" il nz rec "1.prems" show ?thesis by simp
  qed
qed

lemma find_free_from_least:
  "i \<le> k \<Longrightarrow> k < length mc \<Longrightarrow> mc ! k = 0 \<Longrightarrow> (\<forall>j. i \<le> j \<and> j < k \<longrightarrow> mc ! j \<noteq> 0)
     \<Longrightarrow> find_free_from mc i = Some k"
proof (induction mc i rule: find_free_from.induct)
  case (1 mc i)
  show ?case
  proof (cases "i = k")
    case True
    with "1.prems" show ?thesis by (subst find_free_from.simps) simp
  next
    case False
    with "1.prems" have nz: "mc ! i \<noteq> 0" and il: "i < length mc" and le: "Suc i \<le> k"
      by auto
    from "1.prems" have "\<forall>j. Suc i \<le> j \<and> j < k \<longrightarrow> mc ! j \<noteq> 0" by auto
    with "1.IH" [OF il nz le] "1.prems" have "find_free_from mc (Suc i) = Some k" by simp
    with nz il show ?thesis by (subst find_free_from.simps) simp
  qed
qed

lemma find_free_from_full:
  assumes "\<forall>j. j < length mc \<longrightarrow> mc ! j \<noteq> 0"
  shows "find_free_from mc 0 = None"
proof (cases "find_free_from mc 0")
  case (Some k)
  from find_free_from_Some [OF this] assms show ?thesis by blast
qed simp

lemma scan_valid_full:
  "length ps = n \<Longrightarrow> i \<le> n \<Longrightarrow> \<forall>j. i \<le> j \<and> j < n \<longrightarrow> \<not> valid (ps ! j)
     \<Longrightarrow> scan_valid n ps i = Inr n"
proof (induction n ps i rule: scan_valid.induct)
  case (1 n ps i)
  show ?case
  proof (cases "i < n")
    case True
    with "1.prems" have nv: "\<not> valid (ps ! i)" and il: "i < length ps" by auto
    from "1.IH" [OF True _ nv] il "1.prems" True have "scan_valid n ps (Suc i) = Inr n"
      by auto
    with True il nv show ?thesis by (subst scan_valid.simps) simp
  next
    case False
    with "1.prems" show ?thesis by (subst scan_valid.simps) simp
  qed
qed

lemma scan_valid_stop:
  "length ps = n \<Longrightarrow> i \<le> k \<Longrightarrow> k < n \<Longrightarrow> valid (ps ! k)
     \<Longrightarrow> \<forall>j. i \<le> j \<and> j < k \<longrightarrow> \<not> valid (ps ! j) \<Longrightarrow> scan_valid n ps i = Inr k"
proof (induction n ps i rule: scan_valid.induct)
  case (1 n ps i)
  show ?case
  proof (cases "i = k")
    case True
    with "1.prems" show ?thesis by (subst scan_valid.simps) simp
  next
    case False
    with "1.prems" have nv: "\<not> valid (ps ! i)" and il: "i < length ps" and lt: "i < n"
      and le: "Suc i \<le> k" by auto
    from "1.prems" have "\<forall>j. Suc i \<le> j \<and> j < k \<longrightarrow> \<not> valid (ps ! j)" by auto
    with "1.IH" [OF lt _ nv] il le "1.prems" have "scan_valid n ps (Suc i) = Inr k" by auto
    with lt il nv show ?thesis by (subst scan_valid.simps) simp
  qed
qed

lemma scan_valid_total:
  assumes "length ps = n"
  shows "\<exists>i. scan_valid n ps 0 = Inr i \<and> (i = n \<longleftrightarrow> list_all (\<lambda>e. \<not> valid e) ps)"
proof (cases "list_all (\<lambda>e. \<not> valid e) ps")
  case True
  with assms have "\<forall>j. 0 \<le> j \<and> j < n \<longrightarrow> \<not> valid (ps ! j)"
    by (simp add: list_all_length)
  with assms have "scan_valid n ps 0 = Inr n" by (intro scan_valid_full) simp_all
  with True show ?thesis by simp
next
  case False
  with assms have ex: "\<exists>k. k < n \<and> valid (ps ! k)" by (auto simp: list_all_length)
  define k where "k = (LEAST k. k < n \<and> valid (ps ! k))"
  from ex have k: "k < n \<and> valid (ps ! k)" unfolding k_def by (rule LeastI_ex)
  have "\<forall>j. 0 \<le> j \<and> j < k \<longrightarrow> \<not> valid (ps ! j)"
  proof (intro allI impI)
    fix j assume j: "0 \<le> j \<and> j < k"
    show "\<not> valid (ps ! j)"
    proof
      assume "valid (ps ! j)"
      with j k have "j < n \<and> valid (ps ! j)" by simp
      then have "k \<le> j" unfolding k_def by (rule Least_le)
      with j show False by simp
    qed
  qed
  with assms k have "scan_valid n ps 0 = Inr k" by (intro scan_valid_stop) simp_all
  with k False show ?thesis by simp
qed

section \<open>Lemmas about words and about reading the state\<close>

lemma sint_small:
  assumes "unat (w :: u32) < 2 ^ 31"
  shows "sint w = int (unat w)"
proof -
  have "int (unat w) < int (2 ^ 31)" using assms by (rule iffD2 [OF of_nat_less_iff])
  then have "uint w < 2 ^ 31" by simp
  moreover have "- (2 ^ 31) \<le> uint w"
  proof -
    have "0 \<le> uint w" by simp
    moreover have "- (2 ^ 31) \<le> (0::int)" by simp
    ultimately show ?thesis by (rule order_trans [rotated])
  qed
  ultimately have "signed_take_bit 31 (uint w) = uint w"
    by (intro signed_take_bit_int_eq_self)
  then show ?thesis by (simp add: sint_uint)
qed

lemma pte_atD:
  assumes "pte_at cfg a vpn s = Some e"
  obtains pd where "0 < NR_PTES_PER_PAGE cfg" "a < length (heap s)"
    "unat vpn div NR_PTES_PER_PAGE cfg < length (pagetable (heap s ! a))"
    "pagetable (heap s ! a) ! (unat vpn div NR_PTES_PER_PAGE cfg) = Some pd"
    "unat vpn mod NR_PTES_PER_PAGE cfg < length pd"
    "e = pd ! (unat vpn mod NR_PTES_PER_PAGE cfg)"
  using assms unfolding pte_at_def by (auto split: if_splits option.splits)

lemma pte_at_put_pte:
  "pte_at cfg a vpn s = Some e \<Longrightarrow>
     pte_at cfg a vpn (s\<lparr>heap := put_pte cfg a vpn e' (heap s)\<rparr>) = Some e'"
  by (erule pte_atD) (simp add: pte_at_def put_pte_def store_pd_def)

lemma replicate_numeral: "replicate (numeral k) x = x # replicate (pred_numeral k) x"
  by (simp add: numeral_eq_Suc)

lemmas run_simps =
  alloc_page_def free_page_def handle_page_fault_def switch_process_def fork_process_def
  list_add_tail_def store_pd_def put_pte_def pte_at_def vm_h_def zero_pte_def zero_pd_def
  zero_pt_def frames_def proc_def machine_def boot_def mapped_def shared_def
  replicate_numeral find_free_from.simps scan_valid.simps fork_ptes.simps fork_dirs.simps
  find_entry.simps Let_def

lemmas state_simps =
  store_pd_def put_pte_def pte_at_def vm_h_def zero_pte_def zero_pd_def zero_pt_def
  frames_def proc_def machine_def boot_def mapped_def shared_def replicate_numeral

section \<open>Lemmas about \<^verbatim>\<open>alloc_page\<close>\<close>

lemma table_okD:
  "table_ok cfg pt \<Longrightarrow> i < length pt \<Longrightarrow> pt ! i = Some pd \<Longrightarrow> length pd = NR_PTES_PER_PAGE cfg"
  by (auto simp: table_ok_def list_all_length split: option.splits)

lemma table_ok_update:
  assumes "table_ok cfg pt" and "length pd = NR_PTES_PER_PAGE cfg"
  shows "table_ok cfg (pt[i := Some pd])"
proof -
  have "case pt[i := Some pd] ! n of None \<Rightarrow> True | Some d \<Rightarrow> length d = NR_PTES_PER_PAGE cfg"
    if "n < length pt" for n
  proof (cases "n = i")
    case True
    with that assms(2) show ?thesis by simp
  next
    case False
    then have "pt[i := Some pd] ! n = pt ! n" by simp
    with assms(1) that show ?thesis by (simp add: table_ok_def list_all_length)
  qed
  with assms(1) show ?thesis by (simp add: table_ok_def list_all_length)
qed

lemma fill_next:
  "(replicate k (1 :: u32) @ replicate (Suc n) 0)[k := (replicate k 1 @ replicate (Suc n) 0) ! k + 1] =
     replicate (Suc k) 1 @ replicate n 0"
proof -
  have "(replicate k (1 :: u32) @ replicate (Suc n) 0) ! k = 0"
    by (simp add: nth_append)
  moreover have "(replicate k (1 :: u32) @ 0 # replicate n 0)[k := 1] = replicate k 1 @ 1 # replicate n 0"
    by (simp add: list_update_append)
  moreover have "replicate (Suc k) (1 :: u32) @ replicate n 0 = replicate k 1 @ 1 # replicate n 0"
    by (simp add: replicate_app_Cons_same)
  ultimately show ?thesis by simp
qed

lemma alloc_page_success:
  assumes "0 < NR_PTES_PER_PAGE cfg" and "current s < length (heap s)"
    and "unat vpn div NR_PTES_PER_PAGE cfg < length (pagetable (heap s ! current s))"
    and "pd = (case pagetable (heap s ! current s) ! (unat vpn div NR_PTES_PER_PAGE cfg) of
                 None \<Rightarrow> new_pd | Some d \<Rightarrow> d)"
    and "unat vpn mod NR_PTES_PER_PAGE cfg < length pd"
    and "i < length (mapcounts s)" and "mapcounts s ! i = 0"
    and "\<forall>j. j < i \<longrightarrow> mapcounts s ! j \<noteq> 0"
  shows "alloc_page cfg new_pd vpn rw s =
           Inr (word_of_nat i,
                s\<lparr>heap := store_pd (current s) (unat vpn div NR_PTES_PER_PAGE cfg)
                            (Some (pd[unat vpn mod NR_PTES_PER_PAGE cfg :=
                               \<lparr>valid = True,
                                writable = (rw = RW_READ cfg OR RW_WRITE cfg),
                                pfn = word_of_nat i,
                                private_tag = rw\<rparr>])) (heap s),
                  mapcounts := (mapcounts s)[i := mapcounts s ! i + 1]\<rparr>)"
proof -
  from assms(6,7,8) have "find_free_from (mapcounts s) 0 = Some i"
    by (intro find_free_from_least) simp_all
  with assms(1-5) show ?thesis
    by (simp add: alloc_page_def Let_def)
qed

lemma alloc_page_exhausted:
  assumes "0 < NR_PTES_PER_PAGE cfg" and "current s < length (heap s)"
    and "unat vpn div NR_PTES_PER_PAGE cfg < length (pagetable (heap s ! current s))"
    and "pd = (case pagetable (heap s ! current s) ! (unat vpn div NR_PTES_PER_PAGE cfg) of
                 None \<Rightarrow> new_pd | Some d \<Rightarrow> d)"
    and "\<forall>j. j < length (mapcounts s) \<longrightarrow> mapcounts s ! j \<noteq> 0"
  shows "alloc_page cfg new_pd vpn rw s =
           Inr (- 1, s\<lparr>heap := store_pd (current s) (unat vpn div NR_PTES_PER_PAGE cfg)
                                (Some pd) (heap s)\<rparr>)"
proof -
  from assms(5) have "find_free_from (mapcounts s) 0 = None" by (rule find_free_from_full)
  with assms(1-4) show ?thesis
    by (simp add: alloc_page_def Let_def)
qed

lemma request_okD:
  assumes "request_ok cfg (new_pd, vpn, rw)" and "0 < NR_PTES_PER_PAGE cfg"
    and "table_ok cfg pt"
    and "pd = (case pt ! (unat vpn div NR_PTES_PER_PAGE cfg) of None \<Rightarrow> new_pd | Some d \<Rightarrow> d)"
  shows "unat vpn div NR_PTES_PER_PAGE cfg < length pt"
    and "length pd = NR_PTES_PER_PAGE cfg"
    and "unat vpn mod NR_PTES_PER_PAGE cfg < length pd"
proof -
  from assms(1) have "unat vpn < NR_PTES_PER_PAGE cfg * NR_PTES_PER_PAGE cfg"
    and np: "length new_pd = NR_PTES_PER_PAGE cfg"
    by (simp_all add: request_ok_def)
  then have "unat vpn div NR_PTES_PER_PAGE cfg < NR_PTES_PER_PAGE cfg"
    by (simp add: less_mult_imp_div_less)
  with assms(3) show i: "unat vpn div NR_PTES_PER_PAGE cfg < length pt"
    by (simp add: table_ok_def)
  show l: "length pd = NR_PTES_PER_PAGE cfg"
  proof (cases "pt ! (unat vpn div NR_PTES_PER_PAGE cfg)")
    case None
    with assms(4) np show ?thesis by simp
  next
    case (Some d)
    with assms(3,4) i show ?thesis by (simp add: table_okD)
  qed
  from assms(2) l show "unat vpn mod NR_PTES_PER_PAGE cfg < length pd" by simp
qed


lemma alloc_pages_fill:
  assumes n: "0 < NR_PTES_PER_PAGE cfg"
  shows "current s < length (heap s) \<Longrightarrow> table_ok cfg (pagetable (heap s ! current s)) \<Longrightarrow>
     mapcounts s = replicate k 1 @ replicate (length rs) 0 \<Longrightarrow> list_all (request_ok cfg) rs \<Longrightarrow>
     \<exists>s'. alloc_pages cfg rs s = Inr (map word_of_nat [k..<k + length rs], s') \<and>
          current s' = current s \<and> length (heap s') = length (heap s) \<and>
          table_ok cfg (pagetable (heap s' ! current s')) \<and>
          mapcounts s' = replicate (k + length rs) 1"
proof (induction rs arbitrary: s k)
  case Nil
  then show ?case by simp
next
  case (Cons r rs)
  obtain new_pd vpn rw where r: "r = (new_pd, vpn, rw)" by (cases r) auto
  define pt where "pt = pagetable (heap s ! current s)"
  define pd where "pd = (case pt ! (unat vpn div NR_PTES_PER_PAGE cfg) of
                           None \<Rightarrow> new_pd | Some d \<Rightarrow> d)"
  from Cons.prems(4) r have ok: "request_ok cfg (new_pd, vpn, rw)" by simp
  from Cons.prems(2) have tok: "table_ok cfg pt" by (simp add: pt_def)
  note rng = request_okD [OF ok n tok pd_def]
  define mc where "mc = mapcounts s"
  from Cons.prems(3) have mc: "mc = replicate k 1 @ replicate (Suc (length rs)) 0"
    by (simp add: mc_def)
  have free: "k < length mc" "mc ! k = 0" "\<forall>j. j < k \<longrightarrow> mc ! j \<noteq> 0"
    by (simp_all add: mc nth_append)
  define s1 where "s1 = s\<lparr>heap := store_pd (current s) (unat vpn div NR_PTES_PER_PAGE cfg)
                            (Some (pd[unat vpn mod NR_PTES_PER_PAGE cfg :=
                               \<lparr>valid = True,
                                writable = (rw = RW_READ cfg OR RW_WRITE cfg),
                                pfn = word_of_nat k,
                                private_tag = rw\<rparr>])) (heap s),
                  mapcounts := mc[k := mc ! k + 1]\<rparr>"
  have step: "alloc_page cfg new_pd vpn rw s = Inr (word_of_nat k, s1)"
    unfolding s1_def mc_def
    using n Cons.prems(1) rng(1) pd_def rng(3) free
    unfolding pt_def mc_def by (rule alloc_page_success)
  have c1: "current s1 = current s" "length (heap s1) = length (heap s)"
    by (simp_all add: s1_def store_pd_def)
  have t1: "table_ok cfg (pagetable (heap s1 ! current s1))"
    using Cons.prems(1) tok rng(2)
    by (simp add: s1_def store_pd_def pt_def table_ok_update)
  have m1: "mapcounts s1 = replicate (Suc k) 1 @ replicate (length rs) 0"
    unfolding s1_def mc by (simp add: fill_next del: replicate.simps)
  from Cons.prems(4) have oks: "list_all (request_ok cfg) rs" by simp
  from Cons.IH [of s1 "Suc k"] Cons.prems(1) c1 t1 m1 oks
  obtain s' where s': "alloc_pages cfg rs s1 = Inr (map word_of_nat [Suc k..<Suc k + length rs], s')"
    "current s' = current s1" "length (heap s') = length (heap s1)"
    "table_ok cfg (pagetable (heap s' ! current s'))"
    "mapcounts s' = replicate (Suc k + length rs) 1"
    by auto
  have "[k..<k + length (r # rs)] = k # [Suc k..<Suc k + length rs]"
    by (simp add: upt_rec)
  with step s' c1 r show ?case by simp
qed

lemma unat_of_nat_small: "i < 2 ^ 32 \<Longrightarrow> unat (word_of_nat i :: u32) = i"
  by (simp add: unat_of_nat)

lemma frame_numbers:
  assumes "n < 2 ^ 31"
  shows "distinct (map word_of_nat [0..<n] :: u32 list)"
    and "(- 1 :: u32) \<notin> set (map word_of_nat [0..<n])"
proof -
  have sub: "set [0..<n] \<subseteq> {0..<2 ^ LENGTH(32)}" using assms by auto
  have "inj_on (word_of_nat :: nat \<Rightarrow> u32) (set [0..<n])"
    by (rule inj_on_subset [OF inj_on_word_of_nat sub])
  then show "distinct (map word_of_nat [0..<n] :: u32 list)"
    by (simp add: distinct_map)
  show "(- 1 :: u32) \<notin> set (map word_of_nat [0..<n])"
  proof
    assume "(- 1 :: u32) \<in> set (map word_of_nat [0..<n])"
    then obtain i where i: "i < n" "(word_of_nat i :: u32) = - 1" by auto
    from i(1) assms have "i < 2 ^ 32" by simp
    then have "unat (word_of_nat i :: u32) = i" by (rule unat_of_nat_small)
    with i(2) have "i = unat (- 1 :: u32)" by simp
    also have "\<dots> = 2 ^ 32 - 1" by (simp add: unsigned_minus_1_eq_mask mask_eq_exp_minus_1)
    finally show False using i(1) assms by simp
  qed
qed

section \<open>Lemmas about the fork\<close>

lemma refs_in_Nil [simp]: "refs_in [] f = 0"
  by (simp add: refs_in_def)

lemma refs_in_Cons:
  "refs_in (e # es) f = (if valid e \<and> unat (pfn e) = f then 1 else 0) + refs_in es f"
  by (simp add: refs_in_def)

lemma fork_ptes_spec:
  "length old_pd = n \<Longrightarrow> length newpd = n \<Longrightarrow>
   (\<forall>k. j \<le> k \<and> k < n \<longrightarrow> valid (old_pd ! k) \<longrightarrow> unat (pfn (old_pd ! k)) < length mc) \<Longrightarrow>
   \<exists>old' new' mc'.
      fork_ptes n j (old_pd, newpd, mc) = Inr (old', new', mc') \<and>
      length old' = n \<and> length new' = n \<and> length mc' = length mc \<and>
      (\<forall>k. k < n \<longrightarrow> old' ! k = (if j \<le> k then cow_parent (old_pd ! k) else old_pd ! k)) \<and>
      (\<forall>k. k < n \<longrightarrow> new' ! k = (if j \<le> k then cow_child (old_pd ! k) (newpd ! k) else newpd ! k)) \<and>
      (\<forall>f. f < length mc \<longrightarrow> mc' ! f = mc ! f + word_of_nat (refs_in (drop j old_pd) f))"
proof (induction n j "(old_pd, newpd, mc)" arbitrary: old_pd newpd mc rule: fork_ptes.induct)
  case (1 n j old_pd newpd mc)
  show ?case
  proof (cases "j < n")
    case False
    with "1.prems" show ?thesis
      by (subst fork_ptes.simps) simp
  next
    case jn: True
    with "1.prems" have jl: "j < length old_pd" "j < length newpd" by simp_all
    have dr: "drop j old_pd = old_pd ! j # drop (Suc j) old_pd"
      using jl(1) by (simp add: Cons_nth_drop_Suc)
    show ?thesis
    proof (cases "valid (old_pd ! j)")
      case nv: False
      from "1.prems"(3) have pre: "\<forall>k. Suc j \<le> k \<and> k < n \<longrightarrow> valid (old_pd ! k) \<longrightarrow>
                  unat (pfn (old_pd ! k)) < length mc" by simp
      from "1.hyps"(2) [OF jn _ nv "1.prems"(1,2) pre] jl
      obtain old' new' mc' where r:
        "fork_ptes n (Suc j) (old_pd, newpd, mc) = Inr (old', new', mc')"
        "length old' = n" "length new' = n" "length mc' = length mc"
        "\<forall>k. k < n \<longrightarrow> old' ! k = (if Suc j \<le> k then cow_parent (old_pd ! k) else old_pd ! k)"
        "\<forall>k. k < n \<longrightarrow> new' ! k = (if Suc j \<le> k then cow_child (old_pd ! k) (newpd ! k) else newpd ! k)"
        "\<forall>f. f < length mc \<longrightarrow> mc' ! f = mc ! f + word_of_nat (refs_in (drop (Suc j) old_pd) f)"
        by auto
      have eq: "fork_ptes n j (old_pd, newpd, mc) = Inr (old', new', mc')"
        using jn jl nv r(1) by (subst fork_ptes.simps) simp
      have o: "\<forall>k. k < n \<longrightarrow> old' ! k = (if j \<le> k then cow_parent (old_pd ! k) else old_pd ! k)"
      proof (intro allI impI)
        fix k assume "k < n"
        with r(5) nv show "old' ! k = (if j \<le> k then cow_parent (old_pd ! k) else old_pd ! k)"
          by (cases "k = j") (auto simp: cow_parent_def)
      qed
      have c: "\<forall>k. k < n \<longrightarrow> new' ! k = (if j \<le> k then cow_child (old_pd ! k) (newpd ! k) else newpd ! k)"
      proof (intro allI impI)
        fix k assume "k < n"
        with r(6) nv show "new' ! k = (if j \<le> k then cow_child (old_pd ! k) (newpd ! k) else newpd ! k)"
          by (cases "k = j") (auto simp: cow_child_def)
      qed
      have m: "\<forall>f. f < length mc \<longrightarrow> mc' ! f = mc ! f + word_of_nat (refs_in (drop j old_pd) f)"
        using r(7) nv by (simp add: dr refs_in_Cons)
      from eq r(2,3,4) o c m show ?thesis by blast
    next
      case v: True
      define p where "p = unat (pfn (old_pd ! j))"
      from "1.prems"(3) jn v have pl: "p < length mc" by (simp add: p_def)
      define old1 where "old1 = old_pd[j := (old_pd ! j)\<lparr>writable := False\<rparr>]"
      define new1 where "new1 = newpd[j := (newpd ! j)\<lparr>valid := True, writable := False,
                                         pfn := pfn (old_pd ! j),
                                         private_tag := private_tag (old_pd ! j)\<rparr>]"
      define mc1 where "mc1 = mc[p := mc ! p + 1]"
      have l1: "length old1 = n" "length new1 = n" "length mc1 = length mc"
        using "1.prems"(1,2) by (simp_all add: old1_def new1_def mc1_def)
      have pre: "\<forall>k. Suc j \<le> k \<and> k < n \<longrightarrow> valid (old1 ! k) \<longrightarrow>
                  unat (pfn (old1 ! k)) < length mc1"
        using "1.prems"(3) by (simp add: old1_def mc1_def)
      have np: "\<not> \<not> unat (pfn (old_pd ! j)) < length mc" using pl by (simp add: p_def)
      have nj: "\<not> \<not> j < length newpd" "\<not> \<not> j < length old_pd" using jl by simp_all
      from "1.hyps"(1) [OF jn nj(2) v nj(1) np l1(1,2)[unfolded old1_def new1_def] 
          pre[unfolded old1_def mc1_def p_def]]
      obtain old' new' mc' where r:
        "fork_ptes n (Suc j) (old1, new1, mc1) = Inr (old', new', mc')"
        "length old' = n" "length new' = n" "length mc' = length mc1"
        "\<forall>k. k < n \<longrightarrow> old' ! k = (if Suc j \<le> k then cow_parent (old1 ! k) else old1 ! k)"
        "\<forall>k. k < n \<longrightarrow> new' ! k = (if Suc j \<le> k then cow_child (old1 ! k) (new1 ! k) else new1 ! k)"
        "\<forall>f. f < length mc1 \<longrightarrow> mc' ! f = mc1 ! f + word_of_nat (refs_in (drop (Suc j) old1) f)"
        unfolding old1_def new1_def mc1_def p_def by auto
      have eq: "fork_ptes n j (old_pd, newpd, mc) = Inr (old', new', mc')"
        using jn jl v pl r(1)
        by (subst fork_ptes.simps) (simp add: old1_def new1_def mc1_def p_def)
      have o: "\<forall>k. k < n \<longrightarrow> old' ! k = (if j \<le> k then cow_parent (old_pd ! k) else old_pd ! k)"
      proof (intro allI impI)
        fix k assume "k < n"
        with r(5) v jl show "old' ! k = (if j \<le> k then cow_parent (old_pd ! k) else old_pd ! k)"
          by (cases "k = j") (auto simp: cow_parent_def old1_def)
      qed
      have c: "\<forall>k. k < n \<longrightarrow> new' ! k = (if j \<le> k then cow_child (old_pd ! k) (newpd ! k) else newpd ! k)"
      proof (intro allI impI)
        fix k assume "k < n"
        with r(6) v jl show "new' ! k = (if j \<le> k then cow_child (old_pd ! k) (newpd ! k) else newpd ! k)"
          by (cases "k = j") (auto simp: cow_child_def old1_def new1_def)
      qed
      have d1: "drop (Suc j) old1 = drop (Suc j) old_pd"
        by (simp add: old1_def)
      have m: "\<forall>f. f < length mc \<longrightarrow> mc' ! f = mc ! f + word_of_nat (refs_in (drop j old_pd) f)"
      proof (intro allI impI)
        fix f assume f: "f < length mc"
        with r(7) l1(3) have "mc' ! f = mc1 ! f + word_of_nat (refs_in (drop (Suc j) old_pd) f)"
          by (simp add: d1)
        also have "mc1 ! f = mc ! f + (if p = f then 1 else 0)"
          using f pl by (simp add: mc1_def nth_list_update)
        finally show "mc' ! f = mc ! f + word_of_nat (refs_in (drop j old_pd) f)"
          using v by (simp add: dr refs_in_Cons p_def)
      qed
      from eq r(2,3) r(4) l1(3) o c m show ?thesis by auto
    qed
  qed
qed

lemma table_refs_Nil [simp]: "table_refs [] f = 0"
  by (simp add: table_refs_def)

lemma table_refs_Cons:
  "table_refs (x # xs) f = (case x of None \<Rightarrow> 0 | Some pd \<Rightarrow> refs_in pd f) + table_refs xs f"
  by (simp add: table_refs_def)

lemma fork_ptes_whole:
  assumes "length old_pd = n" and "length newpd = n"
    and "\<forall>k. k < n \<longrightarrow> valid (old_pd ! k) \<longrightarrow> unat (pfn (old_pd ! k)) < length mc"
  shows "\<exists>mc'. fork_ptes n 0 (old_pd, newpd, mc) =
                  Inr (map cow_parent old_pd, map2 cow_child old_pd newpd, mc') \<and>
               length mc' = length mc \<and>
               (\<forall>f. f < length mc \<longrightarrow> mc' ! f = mc ! f + word_of_nat (refs_in old_pd f))"
proof -
  from assms(3) have "\<forall>k. 0 \<le> k \<and> k < n \<longrightarrow> valid (old_pd ! k) \<longrightarrow>
      unat (pfn (old_pd ! k)) < length mc" by simp
  from fork_ptes_spec [OF assms(1,2) this]
  obtain old' new' mc' where r:
    "fork_ptes n 0 (old_pd, newpd, mc) = Inr (old', new', mc')"
    "length old' = n" "length new' = n" "length mc' = length mc"
    "\<forall>k. k < n \<longrightarrow> old' ! k = cow_parent (old_pd ! k)"
    "\<forall>k. k < n \<longrightarrow> new' ! k = cow_child (old_pd ! k) (newpd ! k)"
    "\<forall>f. f < length mc \<longrightarrow> mc' ! f = mc ! f + word_of_nat (refs_in old_pd f)"
    by auto
  have "old' = map cow_parent old_pd"
    using r(2,5) assms(1) by (intro nth_equalityI) simp_all
  moreover have "new' = map2 cow_child old_pd newpd"
    using r(3,6) assms(1,2) by (intro nth_equalityI) simp_all
  ultimately show ?thesis using r(1,4,7) by simp
qed

lemma fork_dirs_spec:
  "d = n - i \<Longrightarrow> length old_pt = n \<Longrightarrow> length newpt = n \<Longrightarrow>
   (\<forall>k pd. i \<le> k \<and> k < n \<and> old_pt ! k = Some pd \<longrightarrow>
       length pd = n \<and> length (new_pds k) = n \<and>
       (\<forall>j. j < n \<longrightarrow> valid (pd ! j) \<longrightarrow> unat (pfn (pd ! j)) < length mc)) \<Longrightarrow>
   \<exists>old' new' mc'.
      fork_dirs n new_pds i (old_pt, newpt, mc) = Inr (old', new', mc') \<and>
      length old' = n \<and> length new' = n \<and> length mc' = length mc \<and>
      (\<forall>k. k < n \<longrightarrow>
         old' ! k = (if i \<le> k then map_option (map cow_parent) (old_pt ! k) else old_pt ! k)) \<and>
      (\<forall>k. k < n \<longrightarrow>
         new' ! k = (if i \<le> k
                     then (case old_pt ! k of
                             None \<Rightarrow> newpt ! k
                           | Some pd \<Rightarrow> Some (map2 cow_child pd (new_pds k)))
                     else newpt ! k)) \<and>
      (\<forall>f. f < length mc \<longrightarrow> mc' ! f = mc ! f + word_of_nat (table_refs (drop i old_pt) f))"
proof (induction d arbitrary: i old_pt newpt mc)
  case 0
  then have "\<not> i < n" by simp
  with "0.prems" show ?case
    by (subst fork_dirs.simps) simp
next
  case (Suc d)
  then have i: "i < n" and d: "d = n - Suc i" by simp_all
  with Suc.prems have il: "i < length old_pt" "i < length newpt" by simp_all
  have dr: "drop i old_pt = old_pt ! i # drop (Suc i) old_pt"
    using il(1) by (simp add: Cons_nth_drop_Suc)
  show ?case
  proof (cases "old_pt ! i")
    case None
    have pre: "\<forall>k pd. Suc i \<le> k \<and> k < n \<and> old_pt ! k = Some pd \<longrightarrow>
       length pd = n \<and> length (new_pds k) = n \<and>
       (\<forall>j. j < n \<longrightarrow> valid (pd ! j) \<longrightarrow> unat (pfn (pd ! j)) < length mc)"
    proof (intro allI impI)
      fix k pd assume "Suc i \<le> k \<and> k < n \<and> old_pt ! k = Some pd"
      then have "i \<le> k \<and> k < n \<and> old_pt ! k = Some pd" by simp
      with Suc.prems(4) show "length pd = n \<and> length (new_pds k) = n \<and>
       (\<forall>j. j < n \<longrightarrow> valid (pd ! j) \<longrightarrow> unat (pfn (pd ! j)) < length mc)"
        by blast
    qed
    from Suc.IH [OF d Suc.prems(2,3) pre]
    obtain old' new' mc' where r:
      "fork_dirs n new_pds (Suc i) (old_pt, newpt, mc) = Inr (old', new', mc')"
      "length old' = n" "length new' = n" "length mc' = length mc"
      "\<forall>k. k < n \<longrightarrow>
         old' ! k = (if Suc i \<le> k then map_option (map cow_parent) (old_pt ! k) else old_pt ! k)"
      "\<forall>k. k < n \<longrightarrow>
         new' ! k = (if Suc i \<le> k
                     then (case old_pt ! k of
                             None \<Rightarrow> newpt ! k
                           | Some pd \<Rightarrow> Some (map2 cow_child pd (new_pds k)))
                     else newpt ! k)"
      "\<forall>f. f < length mc \<longrightarrow> mc' ! f = mc ! f + word_of_nat (table_refs (drop (Suc i) old_pt) f)"
      by blast
    have eq: "fork_dirs n new_pds i (old_pt, newpt, mc) = Inr (old', new', mc')"
      using i il None r(1) by (subst fork_dirs.simps) simp
    have o: "\<forall>k. k < n \<longrightarrow>
         old' ! k = (if i \<le> k then map_option (map cow_parent) (old_pt ! k) else old_pt ! k)"
    proof (intro allI impI)
      fix k assume "k < n"
      with r(5) None show
        "old' ! k = (if i \<le> k then map_option (map cow_parent) (old_pt ! k) else old_pt ! k)"
        by (cases "k = i") auto
    qed
    have c: "\<forall>k. k < n \<longrightarrow>
         new' ! k = (if i \<le> k
                     then (case old_pt ! k of
                             None \<Rightarrow> newpt ! k
                           | Some pd \<Rightarrow> Some (map2 cow_child pd (new_pds k)))
                     else newpt ! k)"
    proof (intro allI impI)
      fix k assume "k < n"
      with r(6) None show
        "new' ! k = (if i \<le> k
                     then (case old_pt ! k of
                             None \<Rightarrow> newpt ! k
                           | Some pd \<Rightarrow> Some (map2 cow_child pd (new_pds k)))
                     else newpt ! k)"
        by (cases "k = i") auto
    qed
    have m: "\<forall>f. f < length mc \<longrightarrow> mc' ! f = mc ! f + word_of_nat (table_refs (drop i old_pt) f)"
      using r(7) None by (simp add: dr table_refs_Cons)
    from eq r(2,3,4) o c m show ?thesis by blast
  next
    case (Some pd)
    from Suc.prems(4) i Some have pd: "length pd = n" "length (new_pds i) = n"
      "\<forall>j. j < n \<longrightarrow> valid (pd ! j) \<longrightarrow> unat (pfn (pd ! j)) < length mc"
      by auto
    from fork_ptes_whole [OF pd]
    obtain mc1 where in1:
      "fork_ptes n 0 (pd, new_pds i, mc) =
         Inr (map cow_parent pd, map2 cow_child pd (new_pds i), mc1)"
      "length mc1 = length mc"
      "\<forall>f. f < length mc \<longrightarrow> mc1 ! f = mc ! f + word_of_nat (refs_in pd f)"
      by blast
    define old1 where "old1 = old_pt[i := Some (map cow_parent pd)]"
    define new1 where "new1 = newpt[i := Some (map2 cow_child pd (new_pds i))]"
    have l1: "length old1 = n" "length new1 = n"
      using Suc.prems(2,3) by (simp_all add: old1_def new1_def)
    have pre: "\<forall>k pd. Suc i \<le> k \<and> k < n \<and> old1 ! k = Some pd \<longrightarrow>
       length pd = n \<and> length (new_pds k) = n \<and>
       (\<forall>j. j < n \<longrightarrow> valid (pd ! j) \<longrightarrow> unat (pfn (pd ! j)) < length mc1)"
    proof (intro allI impI)
      fix k pd assume a: "Suc i \<le> k \<and> k < n \<and> old1 ! k = Some pd"
      then have "i \<noteq> k" by simp
      then have "old1 ! k = old_pt ! k" unfolding old1_def by (rule nth_list_update_neq)
      with a have "i \<le> k \<and> k < n \<and> old_pt ! k = Some pd" by simp
      with Suc.prems(4) in1(2) show "length pd = n \<and> length (new_pds k) = n \<and>
       (\<forall>j. j < n \<longrightarrow> valid (pd ! j) \<longrightarrow> unat (pfn (pd ! j)) < length mc1)"
        by (simp only:) blast
    qed
    from Suc.IH [OF d l1 pre]
    obtain old' new' mc' where r:
      "fork_dirs n new_pds (Suc i) (old1, new1, mc1) = Inr (old', new', mc')"
      "length old' = n" "length new' = n" "length mc' = length mc1"
      "\<forall>k. k < n \<longrightarrow>
         old' ! k = (if Suc i \<le> k then map_option (map cow_parent) (old1 ! k) else old1 ! k)"
      "\<forall>k. k < n \<longrightarrow>
         new' ! k = (if Suc i \<le> k
                     then (case old1 ! k of
                             None \<Rightarrow> new1 ! k
                           | Some pd \<Rightarrow> Some (map2 cow_child pd (new_pds k)))
                     else new1 ! k)"
      "\<forall>f. f < length mc1 \<longrightarrow> mc' ! f = mc1 ! f + word_of_nat (table_refs (drop (Suc i) old1) f)"
      by blast
    have eq: "fork_dirs n new_pds i (old_pt, newpt, mc) = Inr (old', new', mc')"
      using i il Some in1(1) r(1)
      by (subst fork_dirs.simps) (simp add: old1_def new1_def)
    have o: "\<forall>k. k < n \<longrightarrow>
         old' ! k = (if i \<le> k then map_option (map cow_parent) (old_pt ! k) else old_pt ! k)"
    proof (intro allI impI)
      fix k assume "k < n"
      with r(5) Some il show
        "old' ! k = (if i \<le> k then map_option (map cow_parent) (old_pt ! k) else old_pt ! k)"
        by (cases "k = i") (auto simp: old1_def)
    qed
    have c: "\<forall>k. k < n \<longrightarrow>
         new' ! k = (if i \<le> k
                     then (case old_pt ! k of
                             None \<Rightarrow> newpt ! k
                           | Some pd \<Rightarrow> Some (map2 cow_child pd (new_pds k)))
                     else newpt ! k)"
    proof (intro allI impI)
      fix k assume "k < n"
      with r(6) Some il show
        "new' ! k = (if i \<le> k
                     then (case old_pt ! k of
                             None \<Rightarrow> newpt ! k
                           | Some pd \<Rightarrow> Some (map2 cow_child pd (new_pds k)))
                     else newpt ! k)"
        by (cases "k = i") (auto simp: old1_def new1_def split: option.splits)
    qed
    have d1: "drop (Suc i) old1 = drop (Suc i) old_pt"
      by (simp add: old1_def)
    have m: "\<forall>f. f < length mc \<longrightarrow> mc' ! f = mc ! f + word_of_nat (table_refs (drop i old_pt) f)"
    proof (intro allI impI)
      fix f assume f: "f < length mc"
      with r(7) in1(2) have "mc' ! f = mc1 ! f + word_of_nat (table_refs (drop (Suc i) old_pt) f)"
        by (simp add: d1)
      also from in1(3) f have "mc1 ! f = mc ! f + word_of_nat (refs_in pd f)" by simp
      finally show "mc' ! f = mc ! f + word_of_nat (table_refs (drop i old_pt) f)"
        using Some by (simp add: dr table_refs_Cons)
    qed
    from eq r(2,3) r(4) in1(2) o c m show ?thesis by auto
  qed
qed

lemma frames_in_rangeD:
  "frames_in_range pt m \<Longrightarrow> i < length pt \<Longrightarrow> pt ! i = Some pd \<Longrightarrow> j < length pd \<Longrightarrow>
     valid (pd ! j) \<Longrightarrow> unat (pfn (pd ! j)) < m"
  by (auto simp: frames_in_range_def list_all_length split: option.splits)

lemma fork_dirs_whole:
  assumes n: "n = NR_PTES_PER_PAGE cfg" and tok: "table_ok cfg old_pt"
    and npt: "length new_pt = n" and npd: "\<forall>i. length (new_pds i) = n"
    and fr: "frames_in_range old_pt (length mc)"
  shows "\<exists>old' new' mc'.
      fork_dirs n new_pds 0 (old_pt, new_pt, mc) = Inr (old', new', mc') \<and>
      length old' = n \<and> length new' = n \<and> length mc' = length mc \<and>
      (\<forall>k. k < n \<longrightarrow> old' ! k = map_option (map cow_parent) (old_pt ! k)) \<and>
      (\<forall>k. k < n \<longrightarrow>
         new' ! k = (case old_pt ! k of
                       None \<Rightarrow> new_pt ! k
                     | Some pd \<Rightarrow> Some (map2 cow_child pd (new_pds k)))) \<and>
      (\<forall>f. f < length mc \<longrightarrow> mc' ! f = mc ! f + word_of_nat (table_refs old_pt f))"
proof -
  from tok n have len: "length old_pt = n" by (simp add: table_ok_def)
  have pre: "\<forall>k pd. 0 \<le> k \<and> k < n \<and> old_pt ! k = Some pd \<longrightarrow>
       length pd = n \<and> length (new_pds k) = n \<and>
       (\<forall>j. j < n \<longrightarrow> valid (pd ! j) \<longrightarrow> unat (pfn (pd ! j)) < length mc)"
  proof (intro allI impI)
    fix k pd assume a: "0 \<le> k \<and> k < n \<and> old_pt ! k = Some pd"
    then have "k < length old_pt" "old_pt ! k = Some pd" using len by simp_all
    with tok have "length pd = NR_PTES_PER_PAGE cfg" by (rule table_okD)
    with n have l: "length pd = n" by simp
    have "\<forall>j. j < n \<longrightarrow> valid (pd ! j) \<longrightarrow> unat (pfn (pd ! j)) < length mc"
      using fr a len l by (auto intro: frames_in_rangeD)
    with l npd show "length pd = n \<and> length (new_pds k) = n \<and>
       (\<forall>j. j < n \<longrightarrow> valid (pd ! j) \<longrightarrow> unat (pfn (pd ! j)) < length mc)"
      by simp
  qed
  have "n = n - 0" by simp
  from fork_dirs_spec [OF this len npt pre] show ?thesis by simp
qed

section \<open>Lemmas about the ready queue\<close>

inductive_cases queue_from_NilE: "queue_from hp pos []"
inductive_cases queue_from_EntryE: "queue_from hp (Entry a) as"
inductive_cases queue_from_ProcessesE: "queue_from hp Processes as"

lemma queue_from_det: "queue_from hp pos as \<Longrightarrow> queue_from hp pos bs \<Longrightarrow> as = bs"
proof (induction arbitrary: bs rule: queue_from.induct)
  case at_head
  then show ?case by (auto elim: queue_from_ProcessesE)
next
  case (at_entry a as)
  from at_entry.prems obtain bs' where "bs = a # bs'"
    "queue_from hp (next_ref (list_node (hp ! a))) bs'"
    by (auto elim: queue_from_EntryE)
  with at_entry.IH show ?case by simp
qed

lemma queue_from_bound: "queue_from hp pos as \<Longrightarrow> x \<in> set as \<Longrightarrow> x < length hp"
  by (induction rule: queue_from.induct) auto

lemma queue_from_last:
  "queue_from hp pos as \<Longrightarrow> as \<noteq> [] \<Longrightarrow> next_ref (list_node (hp ! last as)) = Processes"
proof (induction rule: queue_from.induct)
  case at_head
  then show ?case by simp
next
  case (at_entry a as)
  show ?case
  proof (cases "as = []")
    case True
    with at_entry.hyps(2) show ?thesis by (auto elim: queue_from_NilE)
  next
    case False
    with at_entry.IH show ?thesis by simp
  qed
qed

lemma queue_from_append:
  assumes "queue_from hp pos as" and "as \<noteq> []"
    and "a < length hp'" and "next_ref (list_node (hp' ! a)) = Processes"
    and "next_ref (list_node (hp' ! last as)) = Entry a"
    and "length hp \<le> length hp'"
    and "\<forall>x. x < length hp \<and> x \<noteq> last as \<longrightarrow>
           next_ref (list_node (hp' ! x)) = next_ref (list_node (hp ! x))"
  shows "queue_from hp' pos (as @ [a])"
  using assms(1,2,5,7)
proof (induction rule: queue_from.induct)
  case at_head
  then show ?case by simp
next
  case (at_entry x as)
  from at_entry.hyps(1) assms(6) have xl: "x < length hp'" by simp
  have "queue_from hp' (next_ref (list_node (hp' ! a))) []"
    by (simp add: assms(4) at_head)
  with assms(3) have tl: "queue_from hp' (Entry a) [a]" by (rule queue_from.at_entry)
  show ?case
  proof (cases "as = []")
    case True
    with at_entry.prems(2) tl have "queue_from hp' (next_ref (list_node (hp' ! x))) [a]"
      by simp
    with xl have "queue_from hp' (Entry x) (x # [a])" by (rule queue_from.at_entry)
    with True show ?thesis by simp
  next
    case False
    have "x \<noteq> last as"
    proof
      assume e: "x = last as"
      from queue_from_last [OF at_entry.hyps(2) False] e
      have "next_ref (list_node (hp ! x)) = Processes" by simp
      with at_entry.hyps(2) have "as = []" by (auto elim: queue_from_ProcessesE)
      with False show False by simp
    qed
    with at_entry.prems(3) at_entry.hyps(1) False
    have nx: "next_ref (list_node (hp' ! x)) = next_ref (list_node (hp ! x))" by simp
    from at_entry.IH [OF False] at_entry.prems(2,3) False
    have "queue_from hp' (next_ref (list_node (hp ! x))) (as @ [a])" by simp
    with nx have "queue_from hp' (next_ref (list_node (hp' ! x))) (as @ [a])" by simp
    with xl have "queue_from hp' (Entry x) (x # (as @ [a]))" by (rule queue_from.at_entry)
    then show ?thesis by simp
  qed
qed

lemma list_add_tail_spec:
  assumes "a < length (heap s)"
    and "case prev_ref (processes s) of Processes \<Rightarrow> True | Entry b \<Rightarrow> b < length (heap s) \<and> b \<noteq> a"
  shows "\<exists>s'. list_add_tail a s = Inr s' \<and>
          length (heap s') = length (heap s) \<and>
          (\<forall>b. b < length (heap s) \<longrightarrow> pid (heap s' ! b) = pid (heap s ! b) \<and>
                 pagetable (heap s' ! b) = pagetable (heap s ! b)) \<and>
          current s' = current s \<and> ptbr s' = ptbr s \<and> mapcounts s' = mapcounts s \<and>
          prev_ref (processes s') = Entry a \<and>
          list_node (heap s' ! a) = \<lparr>next_ref = Processes, prev_ref = prev_ref (processes s)\<rparr> \<and>
          (case prev_ref (processes s) of
             Processes \<Rightarrow> next_ref (processes s') = Entry a
           | Entry b \<Rightarrow> next_ref (list_node (heap s' ! b)) = Entry a \<and>
                        next_ref (processes s') = next_ref (processes s)) \<and>
          (\<forall>b. b < length (heap s) \<and> b \<noteq> a \<and> Entry b \<noteq> prev_ref (processes s) \<longrightarrow>
                 list_node (heap s' ! b) = list_node (heap s ! b))"
proof (cases "prev_ref (processes s)")
  case Processes
  with assms show ?thesis
    by (simp add: list_add_tail_def Let_def nth_list_update)
next
  case (Entry b)
  with assms show ?thesis
    by (simp add: list_add_tail_def Let_def nth_list_update)
qed

section \<open>Lemmas about the reference counts\<close>

lemma refcount_consistentI:
  "(\<And>f. f < length (mapcounts s) \<Longrightarrow> unat (mapcounts s ! f) = pte_refs s f) \<Longrightarrow>
     refcount_consistent s"
  by (simp add: refcount_consistent_def list_all_iff)

lemma refcount_consistentD:
  "refcount_consistent s \<Longrightarrow> f < length (mapcounts s) \<Longrightarrow> unat (mapcounts s ! f) = pte_refs s f"
  by (simp add: refcount_consistent_def list_all_iff)

lemmas count_simps = pte_refs_def table_refs_def refs_in_def


section \<open>\<^verbatim>\<open>handle_page_fault\<close>: protection and copy-on-write\<close>

text \<open>
  Claim C7. When the entry of \<open>vpn\<close> in the active page table is valid and its
  original-permission tag is read-only, \<^verbatim>\<open>handle_page_fault\<close> returns false, for the
  write mode as for every other, and the state it leaves is the state it found: the
  entry (valid, writable, frame, tag) and every reference count are unchanged.
\<close>

theorem handle_page_fault_protection:
  assumes "ptbr s = Some a" and "pte_at cfg a vpn s = Some e"
    and "valid e" and "private_tag e = RW_READ cfg"
  shows "handle_page_fault cfg vpn rw s = Inr (False, s)"
  using assms(2)
proof (rule pte_atD)
  fix pd
  assume "0 < NR_PTES_PER_PAGE cfg" "a < length (heap s)"
    "unat vpn div NR_PTES_PER_PAGE cfg < length (pagetable (heap s ! a))"
    "pagetable (heap s ! a) ! (unat vpn div NR_PTES_PER_PAGE cfg) = Some pd"
    "unat vpn mod NR_PTES_PER_PAGE cfg < length pd"
    "e = pd ! (unat vpn mod NR_PTES_PER_PAGE cfg)"
  with assms(1,3,4) show ?thesis
    by (simp add: handle_page_fault_def Let_def)
qed

text \<open>
  The run of the spec's test: the page 0 is allocated read-only, then a write to it
  faults.
\<close>

theorem handle_page_fault_protection_witness:
  "alloc_page vm_h zero_pd 0 (RW_READ vm_h) boot =
     Inr (0, machine [proc 0 (Some [mapped 1 0]) (Entry 0) (Entry 0)] Processes Processes 0 [1]) \<and>
   handle_page_fault vm_h 0 (RW_WRITE vm_h)
       (machine [proc 0 (Some [mapped 1 0]) (Entry 0) (Entry 0)] Processes Processes 0 [1]) =
     Inr (False, machine [proc 0 (Some [mapped 1 0]) (Entry 0) (Entry 0)] Processes Processes 0 [1])"
proof -
  let ?s = "machine [proc 0 (Some [mapped 1 0]) (Entry 0) (Entry 0)] Processes Processes 0 [1]"
  have "alloc_page vm_h zero_pd 0 (RW_READ vm_h) boot = Inr (0, ?s)"
    by (simp add: run_simps)
  moreover have "ptbr ?s = Some 0" by (simp add: machine_def)
  moreover have "pte_at vm_h 0 0 ?s = Some (mapped 1 0)" by (simp add: run_simps)
  moreover have "valid (mapped 1 0)" and "private_tag (mapped 1 0) = RW_READ vm_h"
    by (simp_all add: mapped_def vm_h_def)
  ultimately show ?thesis
    using handle_page_fault_protection [of ?s 0 vm_h 0 "mapped 1 0" "RW_WRITE vm_h"]
    by simp
qed

text \<open>
  Claim C3. For a valid entry whose original-permission tag includes write, with the
  count \<open>c\<close> of its frame: when \<open>c\<close> is 1 the handler only sets the writable bit of this
  entry and returns true, and no count changes; when \<open>c\<close> is more than 1 (as the
  \<^verbatim>\<open>int\<close> the source reads it into) and \<open>i\<close> is the lowest free frame, the handler
  adds one to the count of \<open>i\<close>, writes \<open>i\<close> into the frame field of this entry, sets
  its writable bit and returns true, and the count of the old frame is still \<open>c\<close>;
  when \<open>c\<close> is more than 1 and no frame is free it returns false and changes nothing.
\<close>

theorem handle_page_fault_cow:
  assumes "ptbr s = Some a" and "pte_at cfg a vpn s = Some e" and "valid e"
    and "private_tag e AND RW_WRITE cfg \<noteq> 0" and "RW_READ cfg AND RW_WRITE cfg = 0"
    and "unat (pfn e) < length (mapcounts s)" and "length (mapcounts s) \<le> 2 ^ 31"
    and "mc = mapcounts s" and "c = mc ! unat (pfn e)"
  shows "(c = 1 \<longrightarrow>
            handle_page_fault cfg vpn rw s =
              Inr (True, s\<lparr>heap := put_pte cfg a vpn (e\<lparr>writable := True\<rparr>) (heap s)\<rparr>)) \<and>
         (1 < sint c \<longrightarrow>
            (\<forall>i. i < length mc \<and> mc ! i = 0 \<and> (\<forall>j. j < i \<longrightarrow> mc ! j \<noteq> 0) \<longrightarrow>
               handle_page_fault cfg vpn rw s =
                 Inr (True,
                      s\<lparr>heap := put_pte cfg a vpn
                                  (e\<lparr>writable := True, pfn := word_of_nat i\<rparr>) (heap s),
                        mapcounts := mc[i := mc ! i + 1]\<rparr>) \<and>
               i \<noteq> unat (pfn e) \<and>
               (mc[i := mc ! i + 1]) ! unat (pfn e) = c)) \<and>
         (1 < sint c \<and> (\<forall>j. j < length mc \<longrightarrow> mc ! j \<noteq> 0) \<longrightarrow>
            handle_page_fault cfg vpn rw s = Inr (False, s))"
  using assms(2)
proof (rule pte_atD)
  fix pd
  assume a: "0 < NR_PTES_PER_PAGE cfg" "a < length (heap s)"
    "unat vpn div NR_PTES_PER_PAGE cfg < length (pagetable (heap s ! a))"
    "pagetable (heap s ! a) ! (unat vpn div NR_PTES_PER_PAGE cfg) = Some pd"
    "unat vpn mod NR_PTES_PER_PAGE cfg < length pd"
    "e = pd ! (unat vpn mod NR_PTES_PER_PAGE cfg)"
  have tag: "private_tag e \<noteq> RW_READ cfg"
    using assms(4,5) by auto
  from assms(6,7) have "unat (pfn e) < 2 ^ 31" by simp
  then have f: "sint (pfn e) = int (unat (pfn e))" by (rule sint_small)
  have "int (unat (pfn e)) < int (length (mapcounts s))"
    using assms(6) by (rule iffD2 [OF of_nat_less_iff])
  then have rng: "\<not> (sint (pfn e) < 0 \<or> int (length (mapcounts s)) \<le> sint (pfn e))"
    by (simp add: f)
  have cnt: "mapcounts s ! nat (sint (pfn e)) = c"
    using assms(8,9) by (simp add: f)
  have put1: "\<And>e'. store_pd a (unat vpn div NR_PTES_PER_PAGE cfg)
                  (Some (pd[unat vpn mod NR_PTES_PER_PAGE cfg := e'])) (heap s) =
               put_pte cfg a vpn e' (heap s)"
    using a by (simp add: put_pte_def)
  have pre: "handle_page_fault cfg vpn rw s =
      (if sint c = 1
       then Inr (True, s\<lparr>heap := put_pte cfg a vpn (e\<lparr>writable := True\<rparr>) (heap s)\<rparr>)
       else if 1 < sint c
       then (case find_free_from mc 0 of
               Some i \<Rightarrow>
                 Inr (True,
                      s\<lparr>heap := put_pte cfg a vpn
                                  (e\<lparr>writable := True, pfn := word_of_nat i\<rparr>) (heap s),
                        mapcounts := mc[i := mc ! i + 1]\<rparr>)
             | None \<Rightarrow> Inr (False, s))
       else Inr (False, s))"
    using a assms(1,3,8) tag rng cnt
    by (simp add: handle_page_fault_def Let_def put1 split: option.splits)
  have one: "c = 1 \<longrightarrow>
            handle_page_fault cfg vpn rw s =
              Inr (True, s\<lparr>heap := put_pte cfg a vpn (e\<lparr>writable := True\<rparr>) (heap s)\<rparr>)"
    by (simp add: pre)
  have many: "1 < sint c \<longrightarrow>
            (\<forall>i. i < length mc \<and> mc ! i = 0 \<and> (\<forall>j. j < i \<longrightarrow> mc ! j \<noteq> 0) \<longrightarrow>
               handle_page_fault cfg vpn rw s =
                 Inr (True,
                      s\<lparr>heap := put_pte cfg a vpn
                                  (e\<lparr>writable := True, pfn := word_of_nat i\<rparr>) (heap s),
                        mapcounts := mc[i := mc ! i + 1]\<rparr>) \<and>
               i \<noteq> unat (pfn e) \<and>
               (mc[i := mc ! i + 1]) ! unat (pfn e) = c)"
  proof (intro impI allI)
    fix i
    assume c: "1 < sint c"
      and i: "i < length mc \<and> mc ! i = 0 \<and> (\<forall>j. j < i \<longrightarrow> mc ! j \<noteq> 0)"
    then have "find_free_from mc 0 = Some i" by (intro find_free_from_least) simp_all
    moreover have ne: "i \<noteq> unat (pfn e)"
    proof
      assume "i = unat (pfn e)"
      with i assms(9) have "c = 0" by simp
      with c show False by simp
    qed
    ultimately show "handle_page_fault cfg vpn rw s =
                 Inr (True,
                      s\<lparr>heap := put_pte cfg a vpn
                                  (e\<lparr>writable := True, pfn := word_of_nat i\<rparr>) (heap s),
                        mapcounts := mc[i := mc ! i + 1]\<rparr>) \<and>
               i \<noteq> unat (pfn e) \<and>
               (mc[i := mc ! i + 1]) ! unat (pfn e) = c"
      using c assms(9) by (simp add: pre)
  qed
  have none: "1 < sint c \<and> (\<forall>j. j < length mc \<longrightarrow> mc ! j \<noteq> 0) \<longrightarrow>
            handle_page_fault cfg vpn rw s = Inr (False, s)"
  proof
    assume h: "1 < sint c \<and> (\<forall>j. j < length mc \<longrightarrow> mc ! j \<noteq> 0)"
    then have "find_free_from mc 0 = None" by (intro find_free_from_full) simp
    with h show "handle_page_fault cfg vpn rw s = Inr (False, s)" by (simp add: pre)
  qed
  from one many none show ?thesis by blast
qed

text \<open>
  The three cases at work: an entry that alone maps its frame; the entry of a child
  after a fork, which shares the frame 0 with its parent and moves to the frame 1; and
  the same entry when every frame is in use.
\<close>

theorem handle_page_fault_cow_witness:
  "handle_page_fault vm_h 0 (RW_WRITE vm_h)
       (machine [proc 0 (Some [shared 3 0]) (Entry 0) (Entry 0)] Processes Processes 0 [1]) =
     Inr (True, machine [proc 0 (Some [mapped 3 0]) (Entry 0) (Entry 0)] Processes Processes 0 [1]) \<and>
   handle_page_fault vm_h 0 (RW_WRITE vm_h)
       (machine [proc 0 (Some [shared 3 0]) (Entry 0) (Entry 0),
                 proc 1 (Some [shared 3 0]) Processes Processes] (Entry 1) (Entry 1) 1 [2]) =
     Inr (True, machine [proc 0 (Some [shared 3 0]) (Entry 0) (Entry 0),
                         proc 1 (Some [mapped 3 1]) Processes Processes] (Entry 1) (Entry 1) 1 [2, 1]) \<and>
   handle_page_fault vm_h 0 (RW_WRITE vm_h)
       ((machine [proc 0 (Some [shared 3 0]) (Entry 0) (Entry 0),
                  proc 1 (Some [shared 3 0]) Processes Processes] (Entry 1) (Entry 1) 1 [])
          \<lparr>mapcounts := replicate 128 2\<rparr>) =
     Inr (False, (machine [proc 0 (Some [shared 3 0]) (Entry 0) (Entry 0),
                  proc 1 (Some [shared 3 0]) Processes Processes] (Entry 1) (Entry 1) 1 [])
          \<lparr>mapcounts := replicate 128 2\<rparr>)"
proof -
  let ?x = "machine [proc 0 (Some [shared 3 0]) (Entry 0) (Entry 0)] Processes Processes 0 [1]"
  let ?ps = "[proc 0 (Some [shared 3 0]) (Entry 0) (Entry 0),
              proc 1 (Some [shared 3 0]) Processes Processes]"
  let ?p = "machine ?ps (Entry 1) (Entry 1) 1 [2]"
  let ?q = "(machine ?ps (Entry 1) (Entry 1) 1 [])\<lparr>mapcounts := replicate 128 2\<rparr>"
  have tag: "valid (shared 3 0)" "private_tag (shared 3 0) AND RW_WRITE vm_h \<noteq> 0"
    "RW_READ vm_h AND RW_WRITE vm_h = 0"
    by (simp_all add: shared_def vm_h_def)
  have x: "ptbr ?x = Some 0" "pte_at vm_h 0 0 ?x = Some (shared 3 0)"
    "unat (pfn (shared 3 0)) < length (mapcounts ?x)" "length (mapcounts ?x) \<le> 2 ^ 31"
    "frames [1] = mapcounts ?x" "1 = frames [1] ! unat (pfn (shared 3 0))"
    by (simp_all add: state_simps)
  have p: "ptbr ?p = Some 1" "pte_at vm_h 1 0 ?p = Some (shared 3 0)"
    "unat (pfn (shared 3 0)) < length (mapcounts ?p)" "length (mapcounts ?p) \<le> 2 ^ 31"
    "frames [2] = mapcounts ?p" "2 = frames [2] ! unat (pfn (shared 3 0))"
    by (simp_all add: state_simps)
  have q: "ptbr ?q = Some 1" "pte_at vm_h 1 0 ?q = Some (shared 3 0)"
    "unat (pfn (shared 3 0)) < length (mapcounts ?q)" "length (mapcounts ?q) \<le> 2 ^ 31"
    "replicate 128 2 = mapcounts ?q" "2 = replicate 128 2 ! unat (pfn (shared 3 0))"
    by (simp_all add: state_simps)
  have two: "1 < sint (2 :: u32)" by simp
  have free: "Suc 0 < length (frames [2]) \<and> frames [2] ! Suc 0 = 0 \<and>
              (\<forall>j. j < Suc 0 \<longrightarrow> frames [2] ! j \<noteq> 0)"
    by (simp add: frames_def replicate_numeral)
  have full: "1 < sint (2 :: u32) \<and> (\<forall>j. j < length (replicate 128 (2 :: u32)) \<longrightarrow> replicate 128 (2 :: u32) ! j \<noteq> 0)"
    by simp
  note X = handle_page_fault_cow [OF x(1,2) tag x(3-6), of "RW_WRITE vm_h",
      THEN conjunct1, rule_format, OF refl]
  note P = handle_page_fault_cow [OF p(1,2) tag p(3-6), of "RW_WRITE vm_h",
      THEN conjunct2, THEN conjunct1, rule_format, OF two free, THEN conjunct1]
  note Q = handle_page_fault_cow [OF q(1,2) tag q(3-6), of "RW_WRITE vm_h",
      THEN conjunct2, THEN conjunct2, rule_format, OF full]
  have a: "handle_page_fault vm_h 0 (RW_WRITE vm_h) ?x =
     Inr (True, machine [proc 0 (Some [mapped 3 0]) (Entry 0) (Entry 0)] Processes Processes 0 [1])"
    by (subst X) (simp add: state_simps)
  have b: "handle_page_fault vm_h 0 (RW_WRITE vm_h) ?p =
     Inr (True, machine [proc 0 (Some [shared 3 0]) (Entry 0) (Entry 0),
                         proc 1 (Some [mapped 3 1]) Processes Processes] (Entry 1) (Entry 1) 1 [2, 1])"
    by (subst P) (simp add: state_simps)
  from a b Q show ?thesis by (intro conjI)
qed

section \<open>\<^verbatim>\<open>free_page\<close>\<close>

text \<open>
  Claim C8. When the frame stored in the entry of \<open>vpn\<close> (in the current process) has
  the reference count 0, \<^verbatim>\<open>free_page\<close> returns with the state as it found it: no count
  goes below 0, and the entry, its inner table and every count are unchanged.
\<close>

theorem free_page_degenerate:
  assumes "pte_at cfg (current s) vpn s = Some e"
    and "unat (pfn e) < length (mapcounts s)"
    and "mapcounts s ! unat (pfn e) = 0"
  shows "free_page cfg vpn s = Inr s"
  using assms(1)
proof (rule pte_atD)
  fix pd
  assume "0 < NR_PTES_PER_PAGE cfg" "current s < length (heap s)"
    "unat vpn div NR_PTES_PER_PAGE cfg < length (pagetable (heap s ! current s))"
    "pagetable (heap s ! current s) ! (unat vpn div NR_PTES_PER_PAGE cfg) = Some pd"
    "unat vpn mod NR_PTES_PER_PAGE cfg < length pd"
    "e = pd ! (unat vpn mod NR_PTES_PER_PAGE cfg)"
  with assms(2,3) show ?thesis
    by (simp add: free_page_def Let_def)
qed

text \<open>
  Two pages are mapped and the page 0 is freed; freeing it once more finds the frame 0
  of the cleared entry with the count 0.
\<close>

theorem free_page_degenerate_witness:
  "free_page vm_h 0
       (machine [proc 0 (Some [mapped 3 0, mapped 3 1]) (Entry 0) (Entry 0)]
          Processes Processes 0 [1, 1]) =
     Inr (machine [proc 0 (Some [zero_pte, mapped 3 1]) (Entry 0) (Entry 0)]
            Processes Processes 0 [0, 1]) \<and>
   free_page vm_h 0
       (machine [proc 0 (Some [zero_pte, mapped 3 1]) (Entry 0) (Entry 0)]
          Processes Processes 0 [0, 1]) =
     Inr (machine [proc 0 (Some [zero_pte, mapped 3 1]) (Entry 0) (Entry 0)]
            Processes Processes 0 [0, 1])"
proof -
  let ?s = "machine [proc 0 (Some [zero_pte, mapped 3 1]) (Entry 0) (Entry 0)]
              Processes Processes 0 [0, 1]"
  have "pte_at vm_h (current ?s) 0 ?s = Some zero_pte"
    and "unat (pfn zero_pte) < length (mapcounts ?s)"
    and "mapcounts ?s ! unat (pfn zero_pte) = 0"
    by (simp_all add: state_simps)
  then have "free_page vm_h 0 ?s = Inr ?s" by (rule free_page_degenerate)
  moreover have "free_page vm_h 0
       (machine [proc 0 (Some [mapped 3 0, mapped 3 1]) (Entry 0) (Entry 0)]
          Processes Processes 0 [1, 1]) = Inr ?s"
    by (simp add: run_simps)
  ultimately show ?thesis by (intro conjI)
qed

text \<open>
  Claim C9. \<^verbatim>\<open>free_page\<close> reads the entry through the directory slot of the current
  process without testing the slot: when the slot of \<open>vpn\<close> is absent the call is no
  no-op, it dereferences \<^verbatim>\<open>NULL\<close>, which is outside the function's domain. When the
  slot is present (and the directory has its declared size and the stored frame is one
  of the pool) the call returns.
\<close>

theorem free_page_null_slot:
  assumes "0 < NR_PTES_PER_PAGE cfg" and "current s < length (heap s)"
    and "pt = pagetable (heap s ! current s)"
    and "unat vpn div NR_PTES_PER_PAGE cfg < length pt"
  shows "(pt ! (unat vpn div NR_PTES_PER_PAGE cfg) = None \<longrightarrow>
            free_page cfg vpn s = Inl NullDeref) \<and>
         (\<forall>pd. pt ! (unat vpn div NR_PTES_PER_PAGE cfg) = Some pd \<and>
               length pd = NR_PTES_PER_PAGE cfg \<and>
               unat (pfn (pd ! (unat vpn mod NR_PTES_PER_PAGE cfg))) < length (mapcounts s) \<longrightarrow>
               (\<exists>s'. free_page cfg vpn s = Inr s'))"
proof (intro conjI impI allI)
  assume "pt ! (unat vpn div NR_PTES_PER_PAGE cfg) = None"
  with assms show "free_page cfg vpn s = Inl NullDeref"
    by (simp add: free_page_def Let_def)
next
  fix pd
  assume pd: "pt ! (unat vpn div NR_PTES_PER_PAGE cfg) = Some pd \<and>
               length pd = NR_PTES_PER_PAGE cfg \<and>
               unat (pfn (pd ! (unat vpn mod NR_PTES_PER_PAGE cfg))) < length (mapcounts s)"
  define pd' where "pd' = pd[unat vpn mod NR_PTES_PER_PAGE cfg :=
                   \<lparr>valid = False, writable = False, pfn = 0, private_tag = 0\<rparr>]"
  from pd have "length pd' = NR_PTES_PER_PAGE cfg" by (simp add: pd'_def)
  from scan_valid_total [OF this] obtain i where
    "scan_valid (NR_PTES_PER_PAGE cfg) pd' 0 = Inr i" by blast
  with assms pd show "\<exists>s'. free_page cfg vpn s = Inr s'"
    by (simp add: free_page_def Let_def pd'_def)
qed

text \<open>
  Freeing a page of a process that has allocated nothing, and freeing a page that is
  mapped.
\<close>

theorem free_page_null_slot_witness:
  "free_page vm_h 0 boot = Inl NullDeref \<and>
   (\<exists>s'. free_page vm_h 0
            (machine [proc 0 (Some [mapped 3 0]) (Entry 0) (Entry 0)] Processes Processes 0 [1]) =
          Inr s')"
proof -
  let ?s = "machine [proc 0 (Some [mapped 3 0]) (Entry 0) (Entry 0)] Processes Processes 0 [1]"
  let ?pd = "[mapped 3 0] @ replicate 15 zero_pte"
  have b: "0 < NR_PTES_PER_PAGE vm_h" "current boot < length (heap boot)"
    "unat (0 :: u32) div NR_PTES_PER_PAGE vm_h < length (pagetable (heap boot ! current boot))"
    "pagetable (heap boot ! current boot) ! (unat (0 :: u32) div NR_PTES_PER_PAGE vm_h) = None"
    by (simp_all add: state_simps)
  have s: "current ?s < length (heap ?s)"
    "unat (0 :: u32) div NR_PTES_PER_PAGE vm_h < length (pagetable (heap ?s ! current ?s))"
    "pagetable (heap ?s ! current ?s) ! (unat (0 :: u32) div NR_PTES_PER_PAGE vm_h) = Some ?pd \<and>
     length ?pd = NR_PTES_PER_PAGE vm_h \<and>
     unat (pfn (?pd ! (unat (0 :: u32) mod NR_PTES_PER_PAGE vm_h))) < length (mapcounts ?s)"
    by (simp_all add: state_simps)
  note absent = free_page_null_slot [OF b(1,2) refl b(3), THEN conjunct1, rule_format, OF b(4)]
  note present = free_page_null_slot [OF b(1) s(1) refl s(2), THEN conjunct2, rule_format, OF s(3)]
  from absent present show ?thesis by (intro conjI)
qed

text \<open>
  Claim C10. \<^verbatim>\<open>free_page\<close> never reads the valid bit. When the directory slot of
  \<open>vpn\<close> is present and the entry is invalid, and the frame stored in the entry has a
  count other than 0, the call takes one from that count and clears the entry again
  (the directory is released when no entry of it is valid).
\<close>

theorem free_page_ignores_valid:
  assumes "pte_at cfg (current s) vpn s = Some e" and "\<not> valid e"
    and "pagetable (heap s ! current s) ! (unat vpn div NR_PTES_PER_PAGE cfg) = Some pd"
    and "length pd = NR_PTES_PER_PAGE cfg"
    and "unat (pfn e) < length (mapcounts s)"
    and "mapcounts s ! unat (pfn e) \<noteq> 0"
    and "pd' = pd[unat vpn mod NR_PTES_PER_PAGE cfg :=
                   \<lparr>valid = False, writable = False, pfn = 0, private_tag = 0\<rparr>]"
  shows "free_page cfg vpn s =
           Inr (s\<lparr>heap := store_pd (current s) (unat vpn div NR_PTES_PER_PAGE cfg)
                            (if list_all (\<lambda>x. \<not> valid x) pd' then None else Some pd') (heap s),
                  mapcounts := (mapcounts s)[unat (pfn e) := mapcounts s ! unat (pfn e) - 1]\<rparr>)"
  using assms(1)
proof (rule pte_atD)
  fix pd0
  assume a: "0 < NR_PTES_PER_PAGE cfg" "current s < length (heap s)"
    "unat vpn div NR_PTES_PER_PAGE cfg < length (pagetable (heap s ! current s))"
    "pagetable (heap s ! current s) ! (unat vpn div NR_PTES_PER_PAGE cfg) = Some pd0"
    "unat vpn mod NR_PTES_PER_PAGE cfg < length pd0"
    "e = pd0 ! (unat vpn mod NR_PTES_PER_PAGE cfg)"
  with assms(3) have pd0: "pd0 = pd" by simp
  from assms(4,7) have "length pd' = NR_PTES_PER_PAGE cfg" by simp
  from scan_valid_total [OF this] obtain i where
    i: "scan_valid (NR_PTES_PER_PAGE cfg) pd' 0 = Inr i"
       "i = NR_PTES_PER_PAGE cfg \<longleftrightarrow> list_all (\<lambda>e. \<not> valid e) pd'" by blast
  from assms(6) have nz: "sint (mapcounts s ! unat (pfn e)) \<noteq> 0"
    by (simp add: signed_eq_0_iff)
  from a pd0 assms(5,7) nz i show ?thesis
    by (simp add: free_page_def Let_def)
qed

text \<open>
  The double free that takes a reference from a frame in use: the pages 0 and 1 are
  mapped to the frames 0 and 1, and the page 1 is freed, which leaves 0 in the frame
  field of its entry. Freeing the page 1 again takes the count of the frame 0 to 0,
  while the entry of the page 0 is still valid and still maps the frame 0.
\<close>

theorem free_page_ignores_valid_witness:
  "free_page vm_h 1
       (machine [proc 0 (Some [mapped 3 0, mapped 3 1]) (Entry 0) (Entry 0)]
          Processes Processes 0 [1, 1]) =
     Inr (machine [proc 0 (Some [mapped 3 0]) (Entry 0) (Entry 0)] Processes Processes 0 [1]) \<and>
   free_page vm_h 1
       (machine [proc 0 (Some [mapped 3 0]) (Entry 0) (Entry 0)] Processes Processes 0 [1]) =
     Inr (machine [proc 0 (Some [mapped 3 0]) (Entry 0) (Entry 0)] Processes Processes 0 [0])"
proof -
  let ?s = "machine [proc 0 (Some [mapped 3 0]) (Entry 0) (Entry 0)] Processes Processes 0 [1]"
  let ?pd = "[mapped 3 0] @ replicate 15 zero_pte"
  have h: "pte_at vm_h (current ?s) 1 ?s = Some zero_pte" "\<not> valid zero_pte"
    "pagetable (heap ?s ! current ?s) ! (unat (1 :: u32) div NR_PTES_PER_PAGE vm_h) = Some ?pd"
    "length ?pd = NR_PTES_PER_PAGE vm_h"
    "unat (pfn zero_pte) < length (mapcounts ?s)"
    "mapcounts ?s ! unat (pfn zero_pte) \<noteq> 0"
    by (simp_all add: state_simps)
  have "free_page vm_h 1 ?s =
     Inr (machine [proc 0 (Some [mapped 3 0]) (Entry 0) (Entry 0)] Processes Processes 0 [0])"
    by (subst free_page_ignores_valid [OF h refl]) (simp add: state_simps)
  moreover have "free_page vm_h 1
       (machine [proc 0 (Some [mapped 3 0, mapped 3 1]) (Entry 0) (Entry 0)]
          Processes Processes 0 [1, 1]) = Inr ?s"
    by (simp add: run_simps)
  ultimately show ?thesis by (intro conjI)
qed

section \<open>\<^verbatim>\<open>alloc_page\<close>\<close>

text \<open>
  Claim C6. \<^verbatim>\<open>alloc_page\<close> selects the lowest-indexed frame whose count is 0 and
  returns its index, and returns \<^verbatim>\<open>-1\<close> when no count is 0. From a pool of \<open>n\<close> frames
  that are all free, \<open>n\<close> successive allocations return 0, 1, ..., \<open>n - 1\<close> in this
  order, and the allocation after them returns \<^verbatim>\<open>-1\<close>, which is none of these indices.
\<close>

theorem alloc_page_smallest_frame:
  assumes "0 < NR_PTES_PER_PAGE cfg" and "current s < length (heap s)"
    and "table_ok cfg (pagetable (heap s ! current s))"
    and "request_ok cfg (new_pd, vpn, rw)" and "list_all (request_ok cfg) rs"
    and "n = length (mapcounts s)" and "n < 2 ^ 31"
  shows "(\<forall>i. i < n \<and> mapcounts s ! i = 0 \<and> (\<forall>j. j < i \<longrightarrow> mapcounts s ! j \<noteq> 0) \<longrightarrow>
            (\<exists>s'. alloc_page cfg new_pd vpn rw s = Inr (word_of_nat i, s') \<and>
                  mapcounts s' = (mapcounts s)[i := 1])) \<and>
         ((\<forall>j. j < n \<longrightarrow> mapcounts s ! j \<noteq> 0) \<longrightarrow>
            (\<exists>s'. alloc_page cfg new_pd vpn rw s = Inr (- 1, s') \<and> mapcounts s' = mapcounts s)) \<and>
         (mapcounts s = replicate n 0 \<and> length rs = n \<longrightarrow>
            (\<exists>s'. alloc_pages cfg rs s = Inr (map word_of_nat [0..<n], s') \<and>
                  (\<exists>s''. alloc_page cfg new_pd vpn rw s' = Inr (- 1, s'')))) \<and>
         distinct (map word_of_nat [0..<n] :: u32 list) \<and>
         (- 1 :: u32) \<notin> set (map word_of_nat [0..<n])"
proof -
  define pd where "pd = (case pagetable (heap s ! current s) ! (unat vpn div NR_PTES_PER_PAGE cfg) of
                           None \<Rightarrow> new_pd | Some d \<Rightarrow> d)"
  note rng = request_okD [OF assms(4,1,3) pd_def]
  have lowest: "\<forall>i. i < n \<and> mapcounts s ! i = 0 \<and> (\<forall>j. j < i \<longrightarrow> mapcounts s ! j \<noteq> 0) \<longrightarrow>
            (\<exists>s'. alloc_page cfg new_pd vpn rw s = Inr (word_of_nat i, s') \<and>
                  mapcounts s' = (mapcounts s)[i := 1])"
  proof (intro allI impI)
    fix i
    assume i: "i < n \<and> mapcounts s ! i = 0 \<and> (\<forall>j. j < i \<longrightarrow> mapcounts s ! j \<noteq> 0)"
    with assms(6) have "i < length (mapcounts s)" "mapcounts s ! i = 0"
      "\<forall>j. j < i \<longrightarrow> mapcounts s ! j \<noteq> 0" by simp_all
    from alloc_page_success [OF assms(1,2) rng(1) pd_def rng(3) this, of rw] i
    show "\<exists>s'. alloc_page cfg new_pd vpn rw s = Inr (word_of_nat i, s') \<and>
                  mapcounts s' = (mapcounts s)[i := 1]"
      by simp
  qed
  have exhausted: "(\<forall>j. j < n \<longrightarrow> mapcounts s ! j \<noteq> 0) \<longrightarrow>
            (\<exists>s'. alloc_page cfg new_pd vpn rw s = Inr (- 1, s') \<and> mapcounts s' = mapcounts s)"
  proof
    assume "\<forall>j. j < n \<longrightarrow> mapcounts s ! j \<noteq> 0"
    with assms(6) have "\<forall>j. j < length (mapcounts s) \<longrightarrow> mapcounts s ! j \<noteq> 0" by simp
    from alloc_page_exhausted [OF assms(1,2) rng(1) pd_def this, of rw]
    show "\<exists>s'. alloc_page cfg new_pd vpn rw s = Inr (- 1, s') \<and> mapcounts s' = mapcounts s"
      by simp
  qed
  have run: "mapcounts s = replicate n 0 \<and> length rs = n \<longrightarrow>
            (\<exists>s'. alloc_pages cfg rs s = Inr (map word_of_nat [0..<n], s') \<and>
                  (\<exists>s''. alloc_page cfg new_pd vpn rw s' = Inr (- 1, s'')))"
  proof
    assume h: "mapcounts s = replicate n 0 \<and> length rs = n"
    then have "mapcounts s = replicate 0 1 @ replicate (length rs) 0" by simp
    from alloc_pages_fill [OF assms(1,2,3) this assms(5)]
    obtain s' where s': "alloc_pages cfg rs s = Inr (map word_of_nat [0..<0 + length rs], s')"
      "current s' = current s" "length (heap s') = length (heap s)"
      "table_ok cfg (pagetable (heap s' ! current s'))"
      "mapcounts s' = replicate (0 + length rs) 1"
      by blast
    define pd' where "pd' = (case pagetable (heap s' ! current s') !
                                 (unat vpn div NR_PTES_PER_PAGE cfg) of
                           None \<Rightarrow> new_pd | Some d \<Rightarrow> d)"
    note rng' = request_okD [OF assms(4,1) s'(4) pd'_def]
    from s'(2,3) assms(2) have cur: "current s' < length (heap s')" by simp
    from s'(5) have "\<forall>j. j < length (mapcounts s') \<longrightarrow> mapcounts s' ! j \<noteq> 0" by simp
    from alloc_page_exhausted [OF assms(1) cur rng'(1) pd'_def this, of rw] s'(1) h
    show "\<exists>s'. alloc_pages cfg rs s = Inr (map word_of_nat [0..<n], s') \<and>
                  (\<exists>s''. alloc_page cfg new_pd vpn rw s' = Inr (- 1, s''))"
      by auto
  qed
  from lowest exhausted run frame_numbers [OF assms(7)] show ?thesis by blast
qed

text \<open>The pool of 128 frames of \<open>boot\<close>: 128 pages are mapped, then one more.\<close>

theorem alloc_page_smallest_frame_witness:
  "\<exists>s'. alloc_pages vm_h (map (\<lambda>i. (zero_pd, word_of_nat i, 3)) [0..<128]) boot =
           Inr (map word_of_nat [0..<128], s') \<and>
         (\<exists>s''. alloc_page vm_h zero_pd 200 3 s' = Inr (- 1, s''))"
proof -
  let ?rs = "map (\<lambda>i. (zero_pd, word_of_nat i :: u32, 3 :: u32)) [0..<128]"
  have ok: "request_ok vm_h (zero_pd, word_of_nat i, 3)" if "i < 256" for i
    using that by (simp add: request_ok_def vm_h_def zero_pd_def unat_of_nat)
  have h: "0 < NR_PTES_PER_PAGE vm_h" "current boot < length (heap boot)"
    "table_ok vm_h (pagetable (heap boot ! current boot))"
    "request_ok vm_h (zero_pd, 200, 3)"
    "128 = length (mapcounts boot)" "(128 :: nat) < 2 ^ 31"
    using ok [of 200] by (simp_all add: state_simps table_ok_def)
  have rs: "list_all (request_ok vm_h) ?rs"
    by (simp add: list_all_iff ok)
  have e: "mapcounts boot = replicate 128 0 \<and> length ?rs = 128"
    by (simp add: boot_def machine_def frames_def)
  from alloc_page_smallest_frame [OF h(1-4) rs h(5,6), THEN conjunct2, THEN conjunct2,
      THEN conjunct1, rule_format, OF e]
  show ?thesis .
qed

section \<open>\<^verbatim>\<open>switch_process\<close>: the fork\<close>

text \<open>
  What the fork does on a state whose current page table has the declared sizes and
  names frames of the pool. When the traversal of the ready queue finds no process with
  the pid, \<^verbatim>\<open>switch_process\<close> returns with a new process \<open>a\<close> of that pid. For every
  present directory slot of the parent and every valid entry in it, the child has an
  entry with the same frame, the same original-permission tag, valid, and not writable,
  and the parent's entry is the same but not writable. The source writes nothing else
  into the child's blocks: for an invalid entry the child's entry is what \<^verbatim>\<open>malloc\<close>
  returned, and so is the child's slot for an absent slot of the parent. The count of
  every frame grows by the number of valid entries of the parent that name it, one for
  each. No other process changes. \<^verbatim>\<open>current\<close> and \<^verbatim>\<open>ptbr\<close> point at the new process.
  The new process is linked in between the head's \<^verbatim>\<open>prev\<close> and the head; the traversal
  is the old one followed by \<open>a\<close> only when the head's \<^verbatim>\<open>prev\<close> was the last process of
  the traversal.
\<close>

lemma switch_process_fork:
  assumes nf: "find_entry (heap s) p (next_ref (processes s)) = Some (Inr None)"
    and cur: "current s < length (heap s)"
    and par: "parent = heap s ! current s"
    and tok: "table_ok cfg (pagetable parent)"
    and npt: "length new_pt = NR_PTES_PER_PAGE cfg"
    and npd: "\<forall>i. length (new_pds i) = NR_PTES_PER_PAGE cfg"
    and fr: "frames_in_range (pagetable parent) (length (mapcounts s))"
    and tl: "case prev_ref (processes s) of Processes \<Rightarrow> True | Entry b \<Rightarrow> b < length (heap s)"
    and a: "a = length (heap s)"
  shows "\<exists>s'. switch_process cfg new_pt new_pds p s = Some (Inr s') \<and>
      length (heap s') = Suc a \<and> pid (heap s' ! a) = p \<and> current s' = a \<and> ptbr s' = Some a \<and>
      length (pagetable (heap s' ! current s)) = NR_PTES_PER_PAGE cfg \<and>
      length (pagetable (heap s' ! a)) = NR_PTES_PER_PAGE cfg \<and>
      (\<forall>i pd. i < NR_PTES_PER_PAGE cfg \<and> pagetable parent ! i = Some pd \<longrightarrow>
         (\<exists>pd' cd.
            pagetable (heap s' ! current s) ! i = Some pd' \<and>
            pagetable (heap s' ! a) ! i = Some cd \<and>
            length pd' = NR_PTES_PER_PAGE cfg \<and> length cd = NR_PTES_PER_PAGE cfg \<and>
            (\<forall>j. j < NR_PTES_PER_PAGE cfg \<longrightarrow>
               (if valid (pd ! j)
                then pd' ! j = (pd ! j)\<lparr>writable := False\<rparr> \<and>
                     cd ! j = \<lparr>valid = True, writable = False, pfn = pfn (pd ! j),
                               private_tag = private_tag (pd ! j)\<rparr>
                else pd' ! j = pd ! j \<and> cd ! j = new_pds i ! j)))) \<and>
      (\<forall>i. i < NR_PTES_PER_PAGE cfg \<and> pagetable parent ! i = None \<longrightarrow>
         pagetable (heap s' ! current s) ! i = None \<and>
         pagetable (heap s' ! a) ! i = new_pt ! i) \<and>
      length (mapcounts s') = length (mapcounts s) \<and>
      (\<forall>f. f < length (mapcounts s) \<longrightarrow>
         mapcounts s' ! f = mapcounts s ! f + word_of_nat (table_refs (pagetable parent) f)) \<and>
      (\<forall>b. b < a \<and> b \<noteq> current s \<longrightarrow> pagetable (heap s' ! b) = pagetable (heap s ! b)) \<and>
      (\<forall>b. b < a \<longrightarrow> pid (heap s' ! b) = pid (heap s ! b)) \<and>
      prev_ref (processes s') = Entry a \<and>
      list_node (heap s' ! a) = \<lparr>next_ref = Processes, prev_ref = prev_ref (processes s)\<rparr> \<and>
      (case prev_ref (processes s) of
         Processes \<Rightarrow> next_ref (processes s') = Entry a
       | Entry b \<Rightarrow> next_ref (list_node (heap s' ! b)) = Entry a \<and>
                    next_ref (processes s') = next_ref (processes s)) \<and>
      (\<forall>as. queue_from (heap s) (next_ref (processes s)) as \<and>
            prev_ref (processes s) = (if as = [] then Processes else Entry (last as)) \<longrightarrow>
            queue_from (heap s') (next_ref (processes s')) (as @ [a]))"
proof -
  define n where "n = NR_PTES_PER_PAGE cfg"
  define c where "c = current s"
  from npt npd have npt': "length new_pt = n" and npd': "\<forall>i. length (new_pds i) = n"
    by (simp_all add: n_def)
  from fork_dirs_whole [OF n_def tok npt' npd' fr]
  obtain old' new' mc' where loop:
    "fork_dirs n new_pds 0 (pagetable parent, new_pt, mapcounts s) = Inr (old', new', mc')"
    "length old' = n" "length new' = n" "length mc' = length (mapcounts s)"
    "\<forall>k. k < n \<longrightarrow> old' ! k = map_option (map cow_parent) (pagetable parent ! k)"
    "\<forall>k. k < n \<longrightarrow>
         new' ! k = (case pagetable parent ! k of
                       None \<Rightarrow> new_pt ! k
                     | Some pd \<Rightarrow> Some (map2 cow_child pd (new_pds k)))"
    "\<forall>f. f < length (mapcounts s) \<longrightarrow>
         mc' ! f = mapcounts s ! f + word_of_nat (table_refs (pagetable parent) f)"
    by blast
  define child where "child = \<lparr>pid = p, pagetable = new',
                                list_node = \<lparr>next_ref = Entry a, prev_ref = Entry a\<rparr>\<rparr>"
  define s1 where "s1 = s\<lparr>heap := (heap s)[c := parent\<lparr>pagetable := old'\<rparr>] @ [child],
                          current := a, ptbr := Some a, mapcounts := mc'\<rparr>"
  have fp: "fork_process cfg new_pt new_pds p s = list_add_tail a s1"
    using cur loop(1) par
    by (simp add: fork_process_def Let_def n_def s1_def child_def c_def a)
  have l1: "length (heap s1) = Suc a" by (simp add: s1_def a)
  have h1: "heap s1 ! a = child" by (simp add: s1_def a nth_append)
  have h1c: "heap s1 ! c = parent\<lparr>pagetable := old'\<rparr>"
    using cur by (simp add: s1_def a c_def nth_append)
  have h1o: "heap s1 ! b = heap s ! b" if "b < a" "b \<noteq> c" for b
    using that by (simp add: s1_def a nth_append)
  have ca: "c < a" using cur by (simp add: c_def a)
  have tl1: "case prev_ref (processes s1) of
               Processes \<Rightarrow> True | Entry b \<Rightarrow> b < length (heap s1) \<and> b \<noteq> a"
    using tl by (auto simp: s1_def a split: list_ref.splits)
  have al: "a < length (heap s1)" using l1 by simp
  from list_add_tail_spec [OF al tl1]
  obtain s' where lat:
    "list_add_tail a s1 = Inr s'"
    "length (heap s') = length (heap s1)"
    "\<forall>b. b < length (heap s1) \<longrightarrow> pid (heap s' ! b) = pid (heap s1 ! b) \<and>
                 pagetable (heap s' ! b) = pagetable (heap s1 ! b)"
    "current s' = current s1" "ptbr s' = ptbr s1" "mapcounts s' = mapcounts s1"
    "prev_ref (processes s') = Entry a"
    "list_node (heap s' ! a) = \<lparr>next_ref = Processes, prev_ref = prev_ref (processes s1)\<rparr>"
    "case prev_ref (processes s1) of
             Processes \<Rightarrow> next_ref (processes s') = Entry a
           | Entry b \<Rightarrow> next_ref (list_node (heap s' ! b)) = Entry a \<and>
                        next_ref (processes s') = next_ref (processes s1)"
    "\<forall>b. b < length (heap s1) \<and> b \<noteq> a \<and> Entry b \<noteq> prev_ref (processes s1) \<longrightarrow>
                 list_node (heap s' ! b) = list_node (heap s1 ! b)"
    by blast
  have ps1: "processes s1 = processes s" by (simp add: s1_def)
  have run: "switch_process cfg new_pt new_pds p s = Some (Inr s')"
    using nf fp lat(1) by (simp add: switch_process_def)
  have A: "length (heap s') = Suc a \<and> pid (heap s' ! a) = p \<and> current s' = a \<and>
           ptbr s' = Some a"
    using lat(2,3,4,5) l1 h1 by (simp add: child_def s1_def)
  have ptc: "pagetable (heap s' ! c) = old'"
    using lat(3) l1 ca h1c by simp
  have pta: "pagetable (heap s' ! a) = new'"
    using lat(3) l1 h1 by (simp add: child_def)
  have A': "length (pagetable (heap s' ! current s)) = NR_PTES_PER_PAGE cfg \<and>
      length (pagetable (heap s' ! a)) = NR_PTES_PER_PAGE cfg"
    using ptc pta loop(2,3) by (simp add: n_def c_def)
  have B: "\<forall>i pd. i < NR_PTES_PER_PAGE cfg \<and> pagetable parent ! i = Some pd \<longrightarrow>
         (\<exists>pd' cd.
            pagetable (heap s' ! current s) ! i = Some pd' \<and>
            pagetable (heap s' ! a) ! i = Some cd \<and>
            length pd' = NR_PTES_PER_PAGE cfg \<and> length cd = NR_PTES_PER_PAGE cfg \<and>
            (\<forall>j. j < NR_PTES_PER_PAGE cfg \<longrightarrow>
               (if valid (pd ! j)
                then pd' ! j = (pd ! j)\<lparr>writable := False\<rparr> \<and>
                     cd ! j = \<lparr>valid = True, writable = False, pfn = pfn (pd ! j),
                               private_tag = private_tag (pd ! j)\<rparr>
                else pd' ! j = pd ! j \<and> cd ! j = new_pds i ! j)))"
  proof (intro allI impI)
    fix i pd
    assume i: "i < NR_PTES_PER_PAGE cfg \<and> pagetable parent ! i = Some pd"
    then have il: "i < length (pagetable parent)" using tok by (simp add: table_ok_def)
    from table_okD [OF tok il] i have lpd: "length pd = NR_PTES_PER_PAGE cfg" by simp
    from npd have lni: "length (new_pds i) = NR_PTES_PER_PAGE cfg" by simp
    from loop(5,6) i have o: "old' ! i = Some (map cow_parent pd)"
      and k: "new' ! i = Some (map2 cow_child pd (new_pds i))"
      by (simp_all add: n_def)
    have "\<forall>j. j < NR_PTES_PER_PAGE cfg \<longrightarrow>
               (if valid (pd ! j)
                then map cow_parent pd ! j = (pd ! j)\<lparr>writable := False\<rparr> \<and>
                     map2 cow_child pd (new_pds i) ! j =
                       \<lparr>valid = True, writable = False, pfn = pfn (pd ! j),
                        private_tag = private_tag (pd ! j)\<rparr>
                else map cow_parent pd ! j = pd ! j \<and>
                     map2 cow_child pd (new_pds i) ! j = new_pds i ! j)"
      using lpd lni by (simp add: cow_parent_def cow_child_def)
    with o k lpd lni ptc pta show "\<exists>pd' cd.
            pagetable (heap s' ! current s) ! i = Some pd' \<and>
            pagetable (heap s' ! a) ! i = Some cd \<and>
            length pd' = NR_PTES_PER_PAGE cfg \<and> length cd = NR_PTES_PER_PAGE cfg \<and>
            (\<forall>j. j < NR_PTES_PER_PAGE cfg \<longrightarrow>
               (if valid (pd ! j)
                then pd' ! j = (pd ! j)\<lparr>writable := False\<rparr> \<and>
                     cd ! j = \<lparr>valid = True, writable = False, pfn = pfn (pd ! j),
                               private_tag = private_tag (pd ! j)\<rparr>
                else pd' ! j = pd ! j \<and> cd ! j = new_pds i ! j))"
      by (simp add: c_def [symmetric])
  qed
  have C: "\<forall>i. i < NR_PTES_PER_PAGE cfg \<and> pagetable parent ! i = None \<longrightarrow>
         pagetable (heap s' ! current s) ! i = None \<and>
         pagetable (heap s' ! a) ! i = new_pt ! i"
    using loop(5,6) ptc pta by (simp add: n_def c_def [symmetric])
  have D: "length (mapcounts s') = length (mapcounts s) \<and>
      (\<forall>f. f < length (mapcounts s) \<longrightarrow>
         mapcounts s' ! f = mapcounts s ! f + word_of_nat (table_refs (pagetable parent) f))"
    using lat(6) loop(4,7) by (simp add: s1_def)
  have E: "(\<forall>b. b < a \<and> b \<noteq> current s \<longrightarrow> pagetable (heap s' ! b) = pagetable (heap s ! b)) \<and>
      (\<forall>b. b < a \<longrightarrow> pid (heap s' ! b) = pid (heap s ! b))"
  proof (intro conjI allI impI)
    fix b assume "b < a \<and> b \<noteq> current s"
    with lat(3) l1 h1o [of b] show "pagetable (heap s' ! b) = pagetable (heap s ! b)"
      by (simp add: c_def)
  next
    fix b assume b: "b < a"
    show "pid (heap s' ! b) = pid (heap s ! b)"
    proof (cases "b = c")
      case True
      with lat(3) l1 b h1c par show ?thesis by (simp add: c_def)
    next
      case False
      with lat(3) l1 b h1o [of b] show ?thesis by simp
    qed
  qed
  have F: "prev_ref (processes s') = Entry a \<and>
      list_node (heap s' ! a) = \<lparr>next_ref = Processes, prev_ref = prev_ref (processes s)\<rparr> \<and>
      (case prev_ref (processes s) of
         Processes \<Rightarrow> next_ref (processes s') = Entry a
       | Entry b \<Rightarrow> next_ref (list_node (heap s' ! b)) = Entry a \<and>
                    next_ref (processes s') = next_ref (processes s))"
    using lat(7,8,9) by (simp add: ps1 split: list_ref.splits)
  have ln1: "list_node (heap s1 ! x) = list_node (heap s ! x)" if "x < a" for x
  proof (cases "x = c")
    case True
    with h1c par show ?thesis by (simp add: c_def)
  next
    case False
    with that h1o [of x] show ?thesis by simp
  qed
  have G: "\<forall>as. queue_from (heap s) (next_ref (processes s)) as \<and>
            prev_ref (processes s) = (if as = [] then Processes else Entry (last as)) \<longrightarrow>
            queue_from (heap s') (next_ref (processes s')) (as @ [a])"
  proof (intro allI impI)
    fix as
    assume q: "queue_from (heap s) (next_ref (processes s)) as \<and>
            prev_ref (processes s) = (if as = [] then Processes else Entry (last as))"
    have na: "next_ref (list_node (heap s' ! a)) = Processes" using lat(8) by simp
    have al': "a < length (heap s')" using lat(2) l1 by simp
    show "queue_from (heap s') (next_ref (processes s')) (as @ [a])"
    proof (cases "as = []")
      case True
      with q F have "next_ref (processes s') = Entry a" by simp
      moreover have "queue_from (heap s') (next_ref (list_node (heap s' ! a))) []"
        by (simp add: na queue_from.at_head)
      with al' have "queue_from (heap s') (Entry a) [a]" by (rule queue_from.at_entry)
      ultimately show ?thesis using True by simp
    next
      case False
      with q have pv: "prev_ref (processes s) = Entry (last as)" by simp
      with F have nl: "next_ref (list_node (heap s' ! last as)) = Entry a"
        and hd: "next_ref (processes s') = next_ref (processes s)" by simp_all
      have le: "length (heap s) \<le> length (heap s')" using lat(2) l1 a by simp
      have keep: "\<forall>x. x < length (heap s) \<and> x \<noteq> last as \<longrightarrow>
           next_ref (list_node (heap s' ! x)) = next_ref (list_node (heap s ! x))"
      proof (intro allI impI)
        fix x assume x: "x < length (heap s) \<and> x \<noteq> last as"
        then have "x < length (heap s1) \<and> x \<noteq> a \<and> Entry x \<noteq> prev_ref (processes s1)"
          using l1 a pv by (simp add: ps1)
        with lat(10) have "list_node (heap s' ! x) = list_node (heap s1 ! x)" by blast
        with x ln1 [of x] a
        show "next_ref (list_node (heap s' ! x)) = next_ref (list_node (heap s ! x))"
          by simp
      qed
      from q have q1: "queue_from (heap s) (next_ref (processes s)) as" by simp
      from queue_from_append [OF q1 False al' na nl le keep] hd show ?thesis by simp
    qed
  qed
  from run A A' B C D E F G show ?thesis by blast
qed

text \<open>
  A process with a read-write page in the frame 0 and a read-only page in the frame 1
  forks the process with the pid 1.
\<close>

lemma switch_process_fork_example:
  "switch_process vm_h zero_pt (\<lambda>i. zero_pd) 1
       (machine [proc 0 (Some [mapped 3 0, mapped 1 1]) (Entry 0) (Entry 0)]
          Processes Processes 0 [1, 1]) =
     Some (Inr (machine [proc 0 (Some [shared 3 0, shared 1 1]) (Entry 0) (Entry 0),
                         proc 1 (Some [shared 3 0, shared 1 1]) Processes Processes]
                  (Entry 1) (Entry 1) 1 [2, 2])) \<and>
   queue_from [proc 0 (Some [shared 3 0, shared 1 1]) (Entry 0) (Entry 0),
               proc 1 (Some [shared 3 0, shared 1 1]) Processes Processes] (Entry 1) [1]"
proof -
  let ?s = "machine [proc 0 (Some [mapped 3 0, mapped 1 1]) (Entry 0) (Entry 0)]
              Processes Processes 0 [1, 1]"
  let ?hp = "[proc 0 (Some [shared 3 0, shared 1 1]) (Entry 0) (Entry 0),
              proc 1 (Some [shared 3 0, shared 1 1]) Processes Processes]"
  let ?t = "machine ?hp (Entry 1) (Entry 1) 1 [2, 2]"
  have ev: "switch_process vm_h zero_pt (\<lambda>i. zero_pd) 1 ?s = Some (Inr ?t)"
    by (simp add: run_simps)
  have h: "find_entry (heap ?s) 1 (next_ref (processes ?s)) = Some (Inr None)"
    "current ?s < length (heap ?s)"
    "table_ok vm_h (pagetable (heap ?s ! current ?s))"
    "length zero_pt = NR_PTES_PER_PAGE vm_h"
    "\<forall>i. length ((\<lambda>i. zero_pd) i) = NR_PTES_PER_PAGE vm_h"
    "frames_in_range (pagetable (heap ?s ! current ?s)) (length (mapcounts ?s))"
    "case prev_ref (processes ?s) of Processes \<Rightarrow> True | Entry b \<Rightarrow> b < length (heap ?s)"
    "1 = length (heap ?s)"
    by (simp_all add: state_simps find_entry.simps table_ok_def frames_in_range_def)
  from switch_process_fork [OF h(1,2) refl h(3-8)]
  obtain s' where s': "switch_process vm_h zero_pt (\<lambda>i. zero_pd) 1 ?s = Some (Inr s')"
    and q: "\<forall>as. queue_from (heap ?s) (next_ref (processes ?s)) as \<and>
            prev_ref (processes ?s) = (if as = [] then Processes else Entry (last as)) \<longrightarrow>
            queue_from (heap s') (next_ref (processes s')) (as @ [1])"
    by (elim exE conjE) (rule that, assumption+)
  from s' ev have e: "s' = ?t" by simp
  have "queue_from (heap ?s) (next_ref (processes ?s)) [] \<and>
            prev_ref (processes ?s) = (if [] = ([] :: nat list) then Processes else Entry (last []))"
    by (simp add: machine_def queue_from.at_head)
  with q [THEN spec, of "[]"] have "queue_from (heap s') (next_ref (processes s')) ([] @ [1])"
    by (rule mp)
  with e have "queue_from ?hp (Entry 1) [1]" by (simp add: machine_def)
  with ev show ?thesis by (intro conjI)
qed

section \<open>Runs on which the code leaves the reference counts wrong\<close>

text \<open>
  Claim C1 says that in every state the four operations can reach, the count of each
  frame is the number of valid entries, across all processes, that name the frame. The
  code does not keep this: the copy-on-write branch of \<^verbatim>\<open>handle_page_fault\<close> moves the
  entry to a new frame and never takes one from the count of the old frame. The run:
  from \<open>boot\<close> the page 0 is allocated read-write, the process forks, and the child
  takes a write fault on the page 0. The counts are consistent before the fault. After
  it the frame 0 has the count 2 and one valid entry, the parent's.
\<close>

theorem refcount_broken_by_cow:
  "refcount_consistent boot \<and>
   alloc_page vm_h zero_pd 0 3 boot =
     Inr (0, machine [proc 0 (Some [mapped 3 0]) (Entry 0) (Entry 0)] Processes Processes 0 [1]) \<and>
   refcount_consistent
     (machine [proc 0 (Some [mapped 3 0]) (Entry 0) (Entry 0)] Processes Processes 0 [1]) \<and>
   switch_process vm_h zero_pt (\<lambda>i. zero_pd) 1
       (machine [proc 0 (Some [mapped 3 0]) (Entry 0) (Entry 0)] Processes Processes 0 [1]) =
     Some (Inr (machine [proc 0 (Some [shared 3 0]) (Entry 0) (Entry 0),
                         proc 1 (Some [shared 3 0]) Processes Processes]
                  (Entry 1) (Entry 1) 1 [2])) \<and>
   refcount_consistent
     (machine [proc 0 (Some [shared 3 0]) (Entry 0) (Entry 0),
               proc 1 (Some [shared 3 0]) Processes Processes] (Entry 1) (Entry 1) 1 [2]) \<and>
   handle_page_fault vm_h 0 (RW_WRITE vm_h)
       (machine [proc 0 (Some [shared 3 0]) (Entry 0) (Entry 0),
                 proc 1 (Some [shared 3 0]) Processes Processes] (Entry 1) (Entry 1) 1 [2]) =
     Inr (True, machine [proc 0 (Some [shared 3 0]) (Entry 0) (Entry 0),
                         proc 1 (Some [mapped 3 1]) Processes Processes]
                  (Entry 1) (Entry 1) 1 [2, 1]) \<and>
   mapcounts (machine [proc 0 (Some [shared 3 0]) (Entry 0) (Entry 0),
                       proc 1 (Some [mapped 3 1]) Processes Processes]
                (Entry 1) (Entry 1) 1 [2, 1]) ! 0 = 2 \<and>
   pte_refs (machine [proc 0 (Some [shared 3 0]) (Entry 0) (Entry 0),
                      proc 1 (Some [mapped 3 1]) Processes Processes]
               (Entry 1) (Entry 1) 1 [2, 1]) 0 = 1 \<and>
   \<not> refcount_consistent
     (machine [proc 0 (Some [shared 3 0]) (Entry 0) (Entry 0),
               proc 1 (Some [mapped 3 1]) Processes Processes] (Entry 1) (Entry 1) 1 [2, 1])"
proof -
  let ?s1 = "machine [proc 0 (Some [mapped 3 0]) (Entry 0) (Entry 0)] Processes Processes 0 [1]"
  let ?s2 = "machine [proc 0 (Some [shared 3 0]) (Entry 0) (Entry 0),
                      proc 1 (Some [shared 3 0]) Processes Processes] (Entry 1) (Entry 1) 1 [2]"
  let ?s3 = "machine [proc 0 (Some [shared 3 0]) (Entry 0) (Entry 0),
                      proc 1 (Some [mapped 3 1]) Processes Processes] (Entry 1) (Entry 1) 1 [2, 1]"
  have c0: "refcount_consistent boot"
  proof (rule refcount_consistentI)
    fix f assume "f < length (mapcounts boot)"
    then show "unat (mapcounts boot ! f) = pte_refs boot f"
      by (simp add: boot_def machine_def frames_def proc_def count_simps)
  qed
  have c1: "refcount_consistent ?s1"
  proof (rule refcount_consistentI)
    fix f assume "f < length (mapcounts ?s1)"
    then show "unat (mapcounts ?s1 ! f) = pte_refs ?s1 f"
      by (cases f) (simp_all add: machine_def frames_def proc_def count_simps mapped_def zero_pte_def)
  qed
  have c2: "refcount_consistent ?s2"
  proof (rule refcount_consistentI)
    fix f assume "f < length (mapcounts ?s2)"
    then show "unat (mapcounts ?s2 ! f) = pte_refs ?s2 f"
      by (cases f) (simp_all add: machine_def frames_def proc_def count_simps shared_def zero_pte_def)
  qed
  have m3: "mapcounts ?s3 ! 0 = 2" by (simp add: machine_def frames_def)
  have r3: "pte_refs ?s3 0 = 1"
    by (simp add: machine_def frames_def proc_def count_simps shared_def mapped_def zero_pte_def)
  have c3: "\<not> refcount_consistent ?s3"
  proof
    assume "refcount_consistent ?s3"
    moreover have "0 < length (mapcounts ?s3)" by (simp add: machine_def frames_def)
    ultimately have "unat (mapcounts ?s3 ! 0) = pte_refs ?s3 0" by (rule refcount_consistentD)
    with m3 r3 show False by simp
  qed
  have e1: "alloc_page vm_h zero_pd 0 3 boot = Inr (0, ?s1)" by (simp add: run_simps)
  have e2: "switch_process vm_h zero_pt (\<lambda>i. zero_pd) 1 ?s1 = Some (Inr ?s2)"
    by (simp add: run_simps)
  have e3: "handle_page_fault vm_h 0 (RW_WRITE vm_h) ?s2 = Inr (True, ?s3)"
    by (simp add: run_simps)
  from c0 e1 c1 e2 c2 e3 m3 r3 c3 show ?thesis by (intro conjI)
qed

text \<open>
  Claim C2 is the spec's fork-then-write test: after A's write fault the shared frame
  should have the count 1 and B's later write fault should only set B's writable bit.
  The run: the process A (pid 1) is forked from the first process, maps the page 0
  read-write to the frame 0 and forks B (pid 2); the driver switches back to A, which
  takes a write fault, then to B, which takes one. The code gives A the frame 1 and
  leaves the count of the frame 0 at 2; so B's fault finds the count 2, not 1, and B is
  moved to the frame 2, while the frame 0 keeps the count 2 with no entry naming it.
\<close>

theorem cow_fork_then_write_run:
  "switch_process vm_h zero_pt (\<lambda>i. zero_pd) 1 boot =
     Some (Inr (machine [proc 0 None (Entry 0) (Entry 0), proc 1 None Processes Processes]
                  (Entry 1) (Entry 1) 1 [])) \<and>
   alloc_page vm_h zero_pd 0 (RW_READ vm_h OR RW_WRITE vm_h)
       (machine [proc 0 None (Entry 0) (Entry 0), proc 1 None Processes Processes]
          (Entry 1) (Entry 1) 1 []) =
     Inr (0, machine [proc 0 None (Entry 0) (Entry 0),
                      proc 1 (Some [mapped 3 0]) Processes Processes]
               (Entry 1) (Entry 1) 1 [1]) \<and>
   switch_process vm_h zero_pt (\<lambda>i. zero_pd) 2
       (machine [proc 0 None (Entry 0) (Entry 0),
                 proc 1 (Some [mapped 3 0]) Processes Processes]
          (Entry 1) (Entry 1) 1 [1]) =
     Some (Inr (machine [proc 0 None (Entry 0) (Entry 0),
                         proc 1 (Some [shared 3 0]) (Entry 2) Processes,
                         proc 2 (Some [shared 3 0]) Processes (Entry 1)]
                  (Entry 1) (Entry 2) 2 [2])) \<and>
   switch_process vm_h zero_pt (\<lambda>i. zero_pd) 1
       (machine [proc 0 None (Entry 0) (Entry 0),
                 proc 1 (Some [shared 3 0]) (Entry 2) Processes,
                 proc 2 (Some [shared 3 0]) Processes (Entry 1)]
          (Entry 1) (Entry 2) 2 [2]) =
     Some (Inr (machine [proc 0 None (Entry 0) (Entry 0),
                         proc 1 (Some [shared 3 0]) (Entry 2) Processes,
                         proc 2 (Some [shared 3 0]) Processes (Entry 1)]
                  (Entry 2) Processes 1 [2])) \<and>
   handle_page_fault vm_h 0 (RW_WRITE vm_h)
       (machine [proc 0 None (Entry 0) (Entry 0),
                 proc 1 (Some [shared 3 0]) (Entry 2) Processes,
                 proc 2 (Some [shared 3 0]) Processes (Entry 1)]
          (Entry 2) Processes 1 [2]) =
     Inr (True, machine [proc 0 None (Entry 0) (Entry 0),
                         proc 1 (Some [mapped 3 1]) (Entry 2) Processes,
                         proc 2 (Some [shared 3 0]) Processes (Entry 1)]
                  (Entry 2) Processes 1 [2, 1]) \<and>
   switch_process vm_h zero_pt (\<lambda>i. zero_pd) 2
       (machine [proc 0 None (Entry 0) (Entry 0),
                 proc 1 (Some [mapped 3 1]) (Entry 2) Processes,
                 proc 2 (Some [shared 3 0]) Processes (Entry 1)]
          (Entry 2) Processes 1 [2, 1]) =
     Some (Inr (machine [proc 0 None (Entry 0) (Entry 0),
                         proc 1 (Some [mapped 3 1]) (Entry 2) Processes,
                         proc 2 (Some [shared 3 0]) Processes (Entry 1)]
                  Processes (Entry 1) 2 [2, 1])) \<and>
   handle_page_fault vm_h 0 (RW_WRITE vm_h)
       (machine [proc 0 None (Entry 0) (Entry 0),
                 proc 1 (Some [mapped 3 1]) (Entry 2) Processes,
                 proc 2 (Some [shared 3 0]) Processes (Entry 1)]
          Processes (Entry 1) 2 [2, 1]) =
     Inr (True, machine [proc 0 None (Entry 0) (Entry 0),
                         proc 1 (Some [mapped 3 1]) (Entry 2) Processes,
                         proc 2 (Some [mapped 3 2]) Processes (Entry 1)]
                  Processes (Entry 1) 2 [2, 1, 1])"
  by (intro conjI) (simp_all add: run_simps)

text \<open>
  Claim C5 says that \<^verbatim>\<open>alloc_page\<close> sets the writable bit if and only if the requested
  mode includes write, also for the mode write-only. The code compares the mode with
  \<^verbatim>\<open>RW_READ|RW_WRITE\<close>: for the mode \<^verbatim>\<open>RW_WRITE\<close> alone the entry is valid, tagged with
  the mode and not writable. \<^verbatim>\<open>handle_page_fault\<close> takes the same tag as write
  permission: the first write faults and the handler sets the bit.
\<close>

theorem alloc_page_write_only:
  "alloc_page vm_h zero_pd 0 (RW_WRITE vm_h) boot =
     Inr (0, machine [proc 0 (Some [shared 2 0]) (Entry 0) (Entry 0)] Processes Processes 0 [1]) \<and>
   RW_WRITE vm_h AND RW_WRITE vm_h \<noteq> 0 \<and>
   writable (shared 2 0) = False \<and>
   handle_page_fault vm_h 0 (RW_WRITE vm_h)
       (machine [proc 0 (Some [shared 2 0]) (Entry 0) (Entry 0)] Processes Processes 0 [1]) =
     Inr (True, machine [proc 0 (Some [(shared 2 0)\<lparr>writable := True\<rparr>]) (Entry 0) (Entry 0)]
                  Processes Processes 0 [1])"
  by (intro conjI) (simp_all add: run_simps)

section \<open>Runs on which the fork misses the ready queue or copies more than the parent has\<close>

text \<open>
  Claim C4 says that the fork gives the child a copy of every valid entry of the parent
  (same frame, same tag, valid, not writable on both sides, the count of the frame
  incremented once), duplicates no invalid entry and no absent slot, appends the new
  process to the ready queue and switches \<^verbatim>\<open>current\<close> and \<^verbatim>\<open>ptbr\<close> to it. The copies, the
  counts and the switch are as the claim says (lemma \<open>switch_process_fork\<close>). The
  code misses the rest on two runs.

  The queue: from \<open>boot\<close> the driver forks the pids 1 and 2, which puts both on the
  queue, switches to 1 and then to 2, and asks for the pid 3. Each switch to a process
  that is found copies that process's \<^verbatim>\<open>next\<close> and \<^verbatim>\<open>prev\<close> into the head (lines 260
  and 261); after the two switches the head's \<^verbatim>\<open>next\<close> is the head itself and its
  \<^verbatim>\<open>prev\<close> is the process 1. The fork of the pid 3 links the new process behind the
  process 1 and leaves the head's \<^verbatim>\<open>next\<close> alone: the traversal from the head is empty,
  the new process is not on it, and asking for the pid 3 again forks a second process
  with the pid 3.

  The entries: the block that \<^verbatim>\<open>malloc\<close> returns for the child's directory is never
  initialised. When its entry 1 holds a valid writable entry for the frame 5, the child
  has that entry for the page 1 after the fork, while the parent's entry for the page 1
  is invalid.
\<close>

theorem switch_process_fork_off_queue:
  "switch_process vm_h zero_pt (\<lambda>i. zero_pd) 1 boot =
     Some (Inr (machine [proc 0 None (Entry 0) (Entry 0), proc 1 None Processes Processes]
                  (Entry 1) (Entry 1) 1 [])) \<and>
   switch_process vm_h zero_pt (\<lambda>i. zero_pd) 2
       (machine [proc 0 None (Entry 0) (Entry 0), proc 1 None Processes Processes]
          (Entry 1) (Entry 1) 1 []) =
     Some (Inr (machine [proc 0 None (Entry 0) (Entry 0), proc 1 None (Entry 2) Processes,
                         proc 2 None Processes (Entry 1)]
                  (Entry 1) (Entry 2) 2 [])) \<and>
   queue_from [proc 0 None (Entry 0) (Entry 0), proc 1 None (Entry 2) Processes,
               proc 2 None Processes (Entry 1)] (Entry 1) [1, 2] \<and>
   switch_process vm_h zero_pt (\<lambda>i. zero_pd) 1
       (machine [proc 0 None (Entry 0) (Entry 0), proc 1 None (Entry 2) Processes,
                 proc 2 None Processes (Entry 1)]
          (Entry 1) (Entry 2) 2 []) =
     Some (Inr (machine [proc 0 None (Entry 0) (Entry 0), proc 1 None (Entry 2) Processes,
                         proc 2 None Processes (Entry 1)]
                  (Entry 2) Processes 1 [])) \<and>
   switch_process vm_h zero_pt (\<lambda>i. zero_pd) 2
       (machine [proc 0 None (Entry 0) (Entry 0), proc 1 None (Entry 2) Processes,
                 proc 2 None Processes (Entry 1)]
          (Entry 2) Processes 1 []) =
     Some (Inr (machine [proc 0 None (Entry 0) (Entry 0), proc 1 None (Entry 2) Processes,
                         proc 2 None Processes (Entry 1)]
                  Processes (Entry 1) 2 [])) \<and>
   switch_process vm_h zero_pt (\<lambda>i. zero_pd) 3
       (machine [proc 0 None (Entry 0) (Entry 0), proc 1 None (Entry 2) Processes,
                 proc 2 None Processes (Entry 1)]
          Processes (Entry 1) 2 []) =
     Some (Inr (machine [proc 0 None (Entry 0) (Entry 0), proc 1 None (Entry 3) Processes,
                         proc 2 None Processes (Entry 1), proc 3 None Processes (Entry 1)]
                  Processes (Entry 3) 3 [])) \<and>
   queue_from [proc 0 None (Entry 0) (Entry 0), proc 1 None (Entry 3) Processes,
               proc 2 None Processes (Entry 1), proc 3 None Processes (Entry 1)] Processes [] \<and>
   switch_process vm_h zero_pt (\<lambda>i. zero_pd) 3
       (machine [proc 0 None (Entry 0) (Entry 0), proc 1 None (Entry 3) Processes,
                 proc 2 None Processes (Entry 1), proc 3 None Processes (Entry 1)]
          Processes (Entry 3) 3 []) =
     Some (Inr (machine [proc 0 None (Entry 0) (Entry 0), proc 1 None (Entry 3) Processes,
                         proc 2 None Processes (Entry 1), proc 3 None (Entry 4) (Entry 1),
                         proc 3 None Processes (Entry 3)]
                  Processes (Entry 4) 4 [])) \<and>
   switch_process vm_h zero_pt (\<lambda>i. [zero_pte, mapped 3 5] @ replicate 14 zero_pte) 1
       (machine [proc 0 (Some [mapped 3 0]) (Entry 0) (Entry 0)] Processes Processes 0 [1]) =
     Some (Inr (machine [proc 0 (Some [shared 3 0]) (Entry 0) (Entry 0),
                         proc 1 (Some [shared 3 0, mapped 3 5]) Processes Processes]
                  (Entry 1) (Entry 1) 1 [2])) \<and>
   pte_at vm_h 0 1
       (machine [proc 0 (Some [shared 3 0]) (Entry 0) (Entry 0),
                 proc 1 (Some [shared 3 0, mapped 3 5]) Processes Processes]
          (Entry 1) (Entry 1) 1 [2]) = Some zero_pte \<and>
   pte_at vm_h 1 1
       (machine [proc 0 (Some [shared 3 0]) (Entry 0) (Entry 0),
                 proc 1 (Some [shared 3 0, mapped 3 5]) Processes Processes]
          (Entry 1) (Entry 1) 1 [2]) =
     Some \<lparr>valid = True, writable = True, pfn = 5, private_tag = 3\<rparr>"
proof -
  have q2: "queue_from [proc 0 None (Entry 0) (Entry 0), proc 1 None (Entry 2) Processes,
               proc 2 None Processes (Entry 1)] (Entry 1) [1, 2]"
    by (rule queue_from.at_entry, simp, simp add: proc_def,
        rule queue_from.at_entry, simp, simp add: proc_def queue_from.at_head)
  have q5: "queue_from [proc 0 None (Entry 0) (Entry 0), proc 1 None (Entry 3) Processes,
               proc 2 None Processes (Entry 1), proc 3 None Processes (Entry 1)] Processes []"
    by (rule queue_from.at_head)
  show ?thesis
    by (intro conjI q2 q5) (simp_all add: run_simps)
qed

end
